theory Spec2Isabelle
  imports Main "HOL-Library.Word"
begin

chapter \<open>The programs\<close>

section \<open>Configuration and C data\<close>

text \<open>
  The four programs (serial, OpenMP, MPI, CUDA) share the same configuration macros.
  \<open>unsigned long long\<close> is a 64-bit word; \<open>int\<close> parameters (lengths, ranks) are
  integers. A C buffer is a list of characters whose length is the buffer's capacity;
  a store outside the buffer is undefined behaviour in C and is an error value here.
\<close>

type_synonym u64 = "64 word"

definition CHARSET :: string where
  "CHARSET = ''abcdefghijklmnopqrstuvwxyz''"

definition CHARSET_SIZE :: u64 where
  "CHARSET_SIZE = 26"

definition MAX_PASSWORD_LENGTH :: int where
  "MAX_PASSWORD_LENGTH = 10"

definition NUL :: char where
  "NUL = CHR 0x00"

datatype error = OutOfBounds

text \<open>\<open>buf[i] = c\<close> on a buffer of capacity \<open>length buf\<close>.\<close>

definition store :: "string \<Rightarrow> int \<Rightarrow> char \<Rightarrow> error + string" where
  "store buf i c = (if 0 \<le> i \<and> i < int (length buf) then Inr (buf[nat i := c]) else Inl OutOfBounds)"

text \<open>The C string held in a buffer: the characters before the first NUL
  (what \<open>strlen\<close>, \<open>printf("%s")\<close> and \<open>strcpy\<close> read).\<close>

definition c_string :: "string \<Rightarrow> string" where
  "c_string buf = takeWhile (\<lambda>c. c \<noteq> NUL) buf"

section \<open>Keyspace: \<open>number_to_password\<close> and \<open>calculate_combinations\<close>\<close>

text \<open>
  \<^verbatim>\<open>for (int i = length - 1; i >= 0; i--) {
      password[i] = CHARSET[num % CHARSET_SIZE];
      num /= CHARSET_SIZE;
  }
  password[length] = '\0';\<close>
\<close>

function number_to_password_loop :: "int \<Rightarrow> u64 \<Rightarrow> string \<Rightarrow> error + string" where
  "number_to_password_loop i num password =
     (if i \<ge> 0 then
        (case store password i (CHARSET ! unat (num mod CHARSET_SIZE)) of
           Inl e \<Rightarrow> Inl e
         | Inr password' \<Rightarrow> number_to_password_loop (i - 1) (num div CHARSET_SIZE) password')
      else Inr password)"
  by pat_completeness auto
termination
  by (relation "measure (\<lambda>(i, num, password). nat (i + 1))") auto

definition number_to_password :: "u64 \<Rightarrow> string \<Rightarrow> int \<Rightarrow> error + string" where
  "number_to_password num password len =
     (case number_to_password_loop (len - 1) num password of
        Inl e \<Rightarrow> Inl e
      | Inr password' \<Rightarrow> store password' len NUL)"

text \<open>
  \<^verbatim>\<open>unsigned long long total = 1;
  for (int i = 0; i < length; i++) total *= CHARSET_SIZE;
  return total;\<close>
  The multiplication is the 64-bit one: it wraps modulo \<open>2 ^ 64\<close>.
\<close>

function calculate_combinations_loop :: "int \<Rightarrow> int \<Rightarrow> u64 \<Rightarrow> u64" where
  "calculate_combinations_loop i len tot =
     (if i < len then calculate_combinations_loop (i + 1) len (tot * CHARSET_SIZE) else tot)"
  by pat_completeness auto
termination
  by (relation "measure (\<lambda>(i, len, tot). nat (len - i))") auto

declare calculate_combinations_loop.simps [simp del]
declare number_to_password_loop.simps [simp del]

definition calculate_combinations :: "int \<Rightarrow> u64" where
  "calculate_combinations len = calculate_combinations_loop 0 len 1"

text \<open>The candidate of an index: the C string \<open>number_to_password\<close> leaves in a buffer
  that has room for \<open>len\<close> characters and the terminator.\<close>

definition candidate :: "u64 \<Rightarrow> int \<Rightarrow> string" where
  "candidate num len =
     (case number_to_password num (replicate (nat len + 1) NUL) len of
        Inl e \<Rightarrow> []
      | Inr password \<Rightarrow> c_string password)"

text \<open>The base-26 digits of a number, most significant first, as characters of
  \<open>CHARSET\<close>: what the loop of \<open>number_to_password\<close> writes (lemma
  \<open>number_to_password_Inr\<close>). Used in proofs only.\<close>

fun digits26 :: "nat \<Rightarrow> nat \<Rightarrow> string" where
  "digits26 m 0 = []"
| "digits26 m (Suc n) = digits26 (m div 26) n @ [CHARSET ! (m mod 26)]"

section \<open>The serial search: \<open>crack_password_serial\<close>\<close>

text \<open>
  What a run of the search reports. \<open>Found guess attempts\<close>: it printed
  \<open>Password: guess\<close> and \<open>Found at attempt: attempts\<close> and returned 1.
  \<open>NotFound attempts\<close>: it printed \<open>Total attempts: attempts\<close> and returned 0.
\<close>

datatype search_result = Found string u64 | NotFound u64

fun return_value :: "search_result \<Rightarrow> int" where
  "return_value (Found guess attempts) = 1"
| "return_value (NotFound attempts) = 0"

text \<open>
  The fingerprint \<open>MD5\<close> comes from OpenSSL and is a parameter \<open>md5\<close> here;
  \<open>generate_hash\<close> applies it to the C string, and \<open>memcmp\<close> of two digests is
  equality. The loop, with \<open>attempts\<close> and the buffer \<open>guess\<close> as state:
  \<^verbatim>\<open>for (unsigned long long i = 0; i < total_combinations; i++) {
      number_to_password(i, guess, password_length);
      attempts++;
      generate_hash(guess, guess_hash);
      if (memcmp(guess_hash, target_hash, MD5_DIGEST_LENGTH) == 0) { ...; return 1; }
  }
  ...; return 0;\<close>
\<close>

function crack_password_serial_loop ::
  "(string \<Rightarrow> 'h) \<Rightarrow> 'h \<Rightarrow> int \<Rightarrow> u64 \<Rightarrow> u64 \<Rightarrow> u64 \<Rightarrow> string \<Rightarrow> error + search_result" where
  "crack_password_serial_loop md5 target_hash password_length total_combinations i attempts guess =
     (if i < total_combinations then
        (case number_to_password i guess password_length of
           Inl e \<Rightarrow> Inl e
         | Inr guess' \<Rightarrow>
             if md5 (c_string guess') = target_hash
             then Inr (Found (c_string guess') (attempts + 1))
             else crack_password_serial_loop md5 target_hash password_length total_combinations
                    (i + 1) (attempts + 1) guess')
      else Inr (NotFound attempts))"
  by pat_completeness auto
termination
proof (relation "measure (\<lambda>(md5, target_hash, password_length, total_combinations, i, attempts, guess).
        unat total_combinations - unat i)", goal_cases)
  case 1
  show ?case by simp
next
  case (2 md5 target_hash password_length total_combinations i attempts guess guess')
  from \<open>i < total_combinations\<close> have lt: "unat i < unat total_combinations"
    by (simp add: word_less_nat_alt)
  moreover have "unat total_combinations < 2 ^ 64"
    using unsigned_less [of total_combinations] by simp
  ultimately have "unat i + unat (1 :: u64) < 2 ^ LENGTH(64)" by simp
  then have "unat (i + 1) = unat i + unat (1 :: u64)" by (simp only: unat_add_lem)
  with lt show ?case by simp
qed

declare crack_password_serial_loop.simps [simp del]

text \<open>
  The buffer is \<open>char guess[MAX_PASSWORD_LENGTH]\<close>: ten bytes, with no room for the
  terminator of a ten-character candidate (the OpenMP, MPI and CUDA programs declare
  \<open>MAX_PASSWORD_LENGTH + 1\<close>). Its initial content is indeterminate in C; every byte
  the search reads has been written by \<open>number_to_password\<close> before, so the content
  chosen here does not matter (lemmas \<open>serial_loop_found\<close> and
  \<open>serial_loop_not_found\<close> hold for every content).
\<close>

definition crack_password_serial :: "(string \<Rightarrow> 'h) \<Rightarrow> string \<Rightarrow> int \<Rightarrow> error + search_result" where
  "crack_password_serial md5 target_password password_length =
     (let total_combinations = calculate_combinations password_length;
          guess = replicate (nat MAX_PASSWORD_LENGTH) NUL;
          target_hash = md5 target_password
      in crack_password_serial_loop md5 target_hash password_length total_combinations 0 0 guess)"

section \<open>Entry points\<close>

text \<open>
  \<open>scanf("%s", password)\<close> stores the token read (a non-empty run of characters
  without white space) and a terminator into the buffer; a token that does not fit is a
  store outside the buffer. \<open>strlen\<close> counts the characters before the terminator.
\<close>

definition scanf_s :: "string \<Rightarrow> string \<Rightarrow> error + string" where
  "scanf_s token buf =
     (if length token < length buf then Inr (token @ NUL # drop (length token + 1) buf)
      else Inl OutOfBounds)"

definition strlen :: "string \<Rightarrow> int" where
  "strlen buf = int (length (c_string buf))"

text \<open>
  What an entry point did. \<open>Rejected rc\<close>: it returned \<open>rc\<close> without calling the
  search. \<open>Searched r rc\<close>: it called the search, which gave \<open>r\<close>, and returned
  \<open>rc\<close>.
\<close>

datatype 'r run = Rejected int | Searched 'r int

text \<open>
  The test \<open>password[i] < 'a' || password[i] > 'z'\<close> on the byte value: whether
  \<open>char\<close> is signed or not, it holds exactly for the bytes outside 97 to 122.
\<close>

definition not_lowercase :: "char \<Rightarrow> bool" where
  "not_lowercase c = (of_char c < (97 :: nat) \<or> (122 :: nat) < of_char c)"

text \<open>
  \<open>main\<close> of the serial program:
  \<^verbatim>\<open>char password[MAX_PASSWORD_LENGTH + 1];
  scanf("%s", password);
  int length = strlen(password);
  if (length > MAX_PASSWORD_LENGTH) return 1;
  for (int i = 0; i < length; i++)
      if (password[i] < 'a' || password[i] > 'z') return 1;
  crack_password_serial(password, length);
  return 0;\<close>
\<close>

definition main_serial :: "(string \<Rightarrow> 'h) \<Rightarrow> string \<Rightarrow> error + search_result run" where
  "main_serial md5 token =
     (case scanf_s token (replicate (nat (MAX_PASSWORD_LENGTH + 1)) NUL) of
        Inl e \<Rightarrow> Inl e
      | Inr password \<Rightarrow>
          let len = strlen password in
          if len > MAX_PASSWORD_LENGTH then Inr (Rejected 1)
          else if list_ex not_lowercase (take (nat len) password) then Inr (Rejected 1)
          else (case crack_password_serial md5 (c_string password) len of
                  Inl e \<Rightarrow> Inl e
                | Inr r \<Rightarrow> Inr (Searched r 0)))"

text \<open>
  \<open>main\<close> of the OpenMP program makes the same two checks and then calls
  \<open>crack_password_parallel\<close>, a parameter here.
\<close>

definition main_openmp :: "(string \<Rightarrow> int \<Rightarrow> 'r) \<Rightarrow> string \<Rightarrow> error + 'r run" where
  "main_openmp crack_password_parallel token =
     (case scanf_s token (replicate (nat (MAX_PASSWORD_LENGTH + 1)) NUL) of
        Inl e \<Rightarrow> Inl e
      | Inr password \<Rightarrow>
          let len = strlen password in
          if len > MAX_PASSWORD_LENGTH then Inr (Rejected 1)
          else if list_ex not_lowercase (take (nat len) password) then Inr (Rejected 1)
          else Inr (Searched (crack_password_parallel (c_string password) len) 0))"

text \<open>
  \<open>main\<close> of the CUDA program also rejects the empty password; the launch
  configuration comes from the command line (\<open>threads_per_block\<close> 256 and
  \<open>num_blocks\<close> 0 by default) and is part of the parameter \<open>crack_password_cuda\<close>.
\<close>

definition main_cuda :: "(string \<Rightarrow> int \<Rightarrow> 'r) \<Rightarrow> string \<Rightarrow> error + 'r run" where
  "main_cuda crack_password_cuda token =
     (case scanf_s token (replicate (nat (MAX_PASSWORD_LENGTH + 1)) NUL) of
        Inl e \<Rightarrow> Inl e
      | Inr password \<Rightarrow>
          let len = strlen password in
          if len > MAX_PASSWORD_LENGTH then Inr (Rejected 1)
          else if len = 0 then Inr (Rejected 1)
          else if list_ex not_lowercase (take (nat len) password) then Inr (Rejected 1)
          else Inr (Searched (crack_password_cuda (c_string password) len) 0))"

text \<open>
  \<open>main\<close> of the MPI program, on every rank once rank 0 has read the token and
  broadcast the buffer:
  \<^verbatim>\<open>int length = strlen(password);
  unsigned char target_hash[MD5_DIGEST_LENGTH];
  generate_hash(password, target_hash);
  mpi_crack(target_hash, length, rank, world_size);
  MPI_Finalize();
  return 0;\<close>
  It has no check of the length or of the characters.
\<close>

definition main_mpi ::
  "(string \<Rightarrow> 'h) \<Rightarrow> ('h \<Rightarrow> int \<Rightarrow> int \<Rightarrow> int \<Rightarrow> 'r) \<Rightarrow> int \<Rightarrow> int \<Rightarrow> string \<Rightarrow> error + 'r run" where
  "main_mpi md5 mpi_crack rank world_size token =
     (case scanf_s token (replicate (nat (MAX_PASSWORD_LENGTH + 1)) NUL) of
        Inl e \<Rightarrow> Inl e
      | Inr password \<Rightarrow>
          let len = strlen password;
              target_hash = md5 (c_string password)
          in Inr (Searched (mpi_crack target_hash len rank world_size) 0))"

section \<open>Work partitions\<close>

text \<open>
  The indices a worker is assigned are the ones its loop takes when no candidate matches
  and no worker announces a match. For an MPI rank the loop is
  \<^verbatim>\<open>for (unsigned long long i = rank; i < total; i += world_size)\<close>
  with \<open>rank\<close> and \<open>world_size\<close> converted to 64 bits. The addition wraps, so the loop
  need not end: not returning is the value \<open>None\<close>.
\<close>

partial_function (option) mpi_crack_loop :: "u64 \<Rightarrow> u64 \<Rightarrow> u64 \<Rightarrow> u64 list \<Rightarrow> u64 list option" where
  "mpi_crack_loop tot world_size i visited =
     (if i < tot then mpi_crack_loop tot world_size (i + world_size) (visited @ [i])
      else Some visited)"

definition mpi_crack_indices :: "u64 \<Rightarrow> int \<Rightarrow> int \<Rightarrow> u64 list option" where
  "mpi_crack_indices tot rank world_size =
     mpi_crack_loop tot (word_of_int world_size) (word_of_int rank) []"

text \<open>
  A CUDA thread computes its number from the 32-bit built-ins and takes a block of
  \<open>passwords_per_thread\<close> indices:
  \<^verbatim>\<open>unsigned long long thread_id = blockIdx.x * blockDim.x + threadIdx.x;
  unsigned long long my_start = start_index + (thread_id * passwords_per_thread);
  if (my_start >= total_combinations) return;
  for (unsigned long long i = 0; i < passwords_per_thread; i++) {
      if (*found_flag) return;
      unsigned long long current_index = my_start + i;
      if (current_index >= total_combinations) return;
      ...
  }\<close>
\<close>

definition thread_id :: "32 word \<Rightarrow> 32 word \<Rightarrow> 32 word \<Rightarrow> u64" where
  "thread_id blockIdx_x blockDim_x threadIdx_x = ucast (blockIdx_x * blockDim_x + threadIdx_x)"

function crack_password_kernel_loop :: "u64 \<Rightarrow> u64 \<Rightarrow> u64 \<Rightarrow> u64 \<Rightarrow> u64 list" where
  "crack_password_kernel_loop my_start passwords_per_thread total_combinations i =
     (if i < passwords_per_thread then
        (let current_index = my_start + i in
         if current_index \<ge> total_combinations then []
         else current_index #
              crack_password_kernel_loop my_start passwords_per_thread total_combinations (i + 1))
      else [])"
  by pat_completeness auto
termination
proof (relation "measure (\<lambda>(my_start, passwords_per_thread, total_combinations, i).
        unat passwords_per_thread - unat i)", goal_cases)
  case 1
  show ?case by simp
next
  case (2 my_start passwords_per_thread total_combinations i current_index)
  from \<open>i < passwords_per_thread\<close> have lt: "unat i < unat passwords_per_thread"
    by (simp add: word_less_nat_alt)
  moreover have "unat passwords_per_thread < 2 ^ 64"
    using unsigned_less [of passwords_per_thread] by simp
  ultimately have "unat i + unat (1 :: u64) < 2 ^ LENGTH(64)" by simp
  then have "unat (i + 1) = unat i + unat (1 :: u64)" by (simp only: unat_add_lem)
  with lt show ?case by simp
qed

declare crack_password_kernel_loop.simps [simp del]

definition crack_password_kernel_indices :: "u64 \<Rightarrow> u64 \<Rightarrow> u64 \<Rightarrow> u64 \<Rightarrow> u64 list" where
  "crack_password_kernel_indices start_index passwords_per_thread total_combinations tid =
     (let my_start = start_index + tid * passwords_per_thread in
      if my_start \<ge> total_combinations then []
      else crack_password_kernel_loop my_start passwords_per_thread total_combinations 0)"

text \<open>Ownership of an index by a worker, read off the two loops. The kernel is launched
  once, with \<open>start_index\<close> 0.\<close>

definition mpi_owns :: "u64 \<Rightarrow> int \<Rightarrow> int \<Rightarrow> u64 \<Rightarrow> bool" where
  "mpi_owns tot world_size rank j =
     (case mpi_crack_indices tot rank world_size of None \<Rightarrow> False | Some xs \<Rightarrow> j \<in> set xs)"

definition cuda_owns :: "u64 \<Rightarrow> u64 \<Rightarrow> u64 \<Rightarrow> u64 \<Rightarrow> bool" where
  "cuda_owns tot passwords_per_thread tid j =
     (j \<in> set (crack_password_kernel_indices 0 passwords_per_thread tot tid))"

text \<open>The worker of the kernel is the thread \<open>threadIdx.x\<close> of block
  \<open>blockIdx.x\<close>, in a grid of blocks of \<open>blockDim.x\<close> threads.\<close>

definition cuda_thread_owns :: "u64 \<Rightarrow> u64 \<Rightarrow> 32 word \<Rightarrow> 32 word \<Rightarrow> 32 word \<Rightarrow> u64 \<Rightarrow> bool" where
  "cuda_thread_owns tot passwords_per_thread blockDim_x blockIdx_x threadIdx_x j =
     cuda_owns tot passwords_per_thread (thread_id blockIdx_x blockDim_x threadIdx_x) j"

text \<open>
  The grid \<open>crack_password_cuda\<close> launches the kernel with, as
  \<open><<<blocks, threads_per_block>>>\<close>:
  \<^verbatim>\<open>unsigned long long passwords_per_thread = 100;
  int blocks;
  if (num_blocks > 0) {
      blocks = num_blocks;
  } else {
      unsigned long long threads_needed =
          (total_combinations + passwords_per_thread - 1) / passwords_per_thread;
      blocks = (threads_needed + threads_per_block - 1) / threads_per_block;
  }\<close>
  The arithmetic is in 64 bits and the quotient is converted to \<open>int\<close>; a division by
  0 is the value \<open>None\<close>.
\<close>

definition crack_password_cuda_blocks :: "u64 \<Rightarrow> int \<Rightarrow> int \<Rightarrow> int option" where
  "crack_password_cuda_blocks total_combinations threads_per_block num_blocks =
     (let passwords_per_thread = 100 :: u64 in
      if num_blocks > 0 then Some num_blocks
      else
        (let threads_needed = (total_combinations + passwords_per_thread - 1) div passwords_per_thread in
         if (word_of_int threads_per_block :: u64) = 0 then None
         else Some (sint (ucast ((threads_needed + word_of_int threads_per_block - 1) div
                                   word_of_int threads_per_block) :: 32 word))))"

section \<open>Progress aggregation on MPI rank 0\<close>

text \<open>
  The messages with \<open>PROGRESS_TAG\<close> that have arrived at rank 0 and are not yet
  received: for every sending rank its pending reports, oldest first (MPI delivers the
  messages of one sender in order). \<open>MPI_Iprobe(p, PROGRESS_TAG, ...)\<close> sets
  \<open>flag\<close> when the queue of \<open>p\<close> is not empty and \<open>MPI_Recv\<close> takes its head.
  One round, run by rank 0 when \<open>counter % check_interval == 0\<close>:
  \<^verbatim>\<open>unsigned long long total_progress = counter;
  for (int p = 1; p < world_size; p++) {
      MPI_Iprobe(p, PROGRESS_TAG, MPI_COMM_WORLD, &flag, &status);
      if (flag) {
          MPI_Recv(&worker_count, 1, MPI_UNSIGNED_LONG_LONG, p, PROGRESS_TAG, ...);
          total_progress += worker_count;
      }
  }
  printf("Progress: %llu / %llu (%.2f%%)\r", total_progress, total, ...);\<close>
  The round returns the figure printed and the mailbox it leaves.
\<close>

type_synonym mailbox = "int \<Rightarrow> u64 list"

function collect_progress_loop :: "int \<Rightarrow> int \<Rightarrow> mailbox \<Rightarrow> u64 \<Rightarrow> u64 \<times> mailbox" where
  "collect_progress_loop p world_size pending total_progress =
     (if p < world_size then
        (case pending p of
           [] \<Rightarrow> collect_progress_loop (p + 1) world_size pending total_progress
         | worker_count # rest \<Rightarrow>
             collect_progress_loop (p + 1) world_size (pending(p := rest))
               (total_progress + worker_count))
      else (total_progress, pending))"
  by pat_completeness auto
termination
  by (relation "measure (\<lambda>(p, world_size, pending, total_progress). nat (world_size - p))") auto

declare collect_progress_loop.simps [simp del]

definition collect_progress :: "u64 \<Rightarrow> int \<Rightarrow> mailbox \<Rightarrow> u64 \<times> mailbox" where
  "collect_progress counter world_size pending = collect_progress_loop 1 world_size pending counter"

text \<open>What a worker's pending queue adds to the figure of one round.\<close>

definition oldest_report :: "u64 list \<Rightarrow> u64" where
  "oldest_report q = (case q of [] \<Rightarrow> 0 | worker_count # rest \<Rightarrow> worker_count)"

section \<open>Announcing a match: the CUDA kernel\<close>

text \<open>
  The threads of one kernel launch run interleaved. A thread's state is its place in the
  kernel (\<open>cu_pc\<close>) and its local variables; the device memory they share holds
  \<open>found_flag\<close>, \<open>found_at_index\<close> and \<open>result_password\<close>. Two ghost fields record
  the history: \<open>transitions\<close> lists the threads whose \<open>atomicCAS\<close> changed the flag
  from 0 to 1, \<open>writers\<close> the threads that stored to \<open>found_at_index\<close> or
  \<open>result_password\<close>, one entry per store.
\<close>

datatype cuda_pc =
    Start           \<comment> \<open>kernel entry\<close>
  | Loop            \<comment> \<open>head of the \<open>for\<close> loop\<close>
  | Cas             \<comment> \<open>the candidate matched: before \<open>atomicCAS(found_flag, 0, 1)\<close>\<close>
  | Check           \<comment> \<open>before \<open>if (old == 0)\<close>\<close>
  | WriteIndex      \<comment> \<open>before \<open>*found_at_index = current_index\<close>\<close>
  | WritePassword   \<comment> \<open>head of the copy loop over \<open>j\<close>\<close>
  | Returned        \<comment> \<open>the thread has returned\<close>
  | Trapped         \<comment> \<open>the thread has stored outside a buffer\<close>

record cuda_thread =
  cu_pc :: cuda_pc
  cu_my_start :: u64
  cu_i :: u64
  cu_current_index :: u64
  cu_password :: string
  cu_old :: int
  cu_j :: int

record cuda_shared =
  found_flag :: int
  found_at_index :: u64
  result_password :: string
  transitions :: "nat list"
  writers :: "nat list"

text \<open>
  The arguments of the launch. The device's MD5 (\<open>prepare_md5_input\<close> and
  \<open>md5_cuda\<close> of \<open>md5_device.cuh\<close>) is the parameter \<open>md5\<close> of the step function.
\<close>

record 'h kernel_args =
  arg_start_index :: u64
  arg_passwords_per_thread :: u64
  arg_password_length :: int
  arg_target_hash :: 'h
  arg_total_combinations :: u64

text \<open>
  One step of thread number \<open>t\<close>, whose \<open>thread_id\<close> is \<open>t\<close> as a 64-bit value.
  Each step makes at most one access to the shared memory.
  \<^verbatim>\<open>int old = atomicCAS(found_flag, 0, 1);
  if (old == 0) {
      *found_at_index = current_index;
      for (int j = 0; j <= password_length; j++)
          result_password[j] = password[j];
  }
  return;\<close>
\<close>

definition cuda_thread_step ::
  "(string \<Rightarrow> 'h) \<Rightarrow> 'h kernel_args \<Rightarrow> nat \<Rightarrow> cuda_shared \<Rightarrow> cuda_thread \<Rightarrow> cuda_shared \<times> cuda_thread" where
  "cuda_thread_step md5 args t sh th =
     (case cu_pc th of
        Start \<Rightarrow>
          (let start = arg_start_index args + word_of_nat t * arg_passwords_per_thread args in
           if start \<ge> arg_total_combinations args then (sh, th\<lparr>cu_pc := Returned\<rparr>)
           else (sh, th\<lparr>cu_pc := Loop, cu_my_start := start, cu_i := 0\<rparr>))
      | Loop \<Rightarrow>
          if \<not> cu_i th < arg_passwords_per_thread args then (sh, th\<lparr>cu_pc := Returned\<rparr>)
          else if found_flag sh \<noteq> 0 then (sh, th\<lparr>cu_pc := Returned\<rparr>)
          else
            (let idx = cu_my_start th + cu_i th in
             if idx \<ge> arg_total_combinations args then (sh, th\<lparr>cu_pc := Returned\<rparr>)
             else
               (case number_to_password idx (cu_password th) (arg_password_length args) of
                  Inl e \<Rightarrow> (sh, th\<lparr>cu_pc := Trapped\<rparr>)
                | Inr buf \<Rightarrow>
                    if md5 (c_string buf) = arg_target_hash args
                    then (sh, th\<lparr>cu_pc := Cas, cu_current_index := idx, cu_password := buf\<rparr>)
                    else (sh, th\<lparr>cu_current_index := idx, cu_password := buf, cu_i := cu_i th + 1\<rparr>)))
      | Cas \<Rightarrow>
          if found_flag sh = 0
          then (sh\<lparr>found_flag := 1, transitions := transitions sh @ [t]\<rparr>,
                th\<lparr>cu_pc := Check, cu_old := 0\<rparr>)
          else (sh, th\<lparr>cu_pc := Check, cu_old := found_flag sh\<rparr>)
      | Check \<Rightarrow>
          if cu_old th = 0 then (sh, th\<lparr>cu_pc := WriteIndex\<rparr>) else (sh, th\<lparr>cu_pc := Returned\<rparr>)
      | WriteIndex \<Rightarrow>
          (sh\<lparr>found_at_index := cu_current_index th, writers := writers sh @ [t]\<rparr>,
           th\<lparr>cu_pc := WritePassword, cu_j := 0\<rparr>)
      | WritePassword \<Rightarrow>
          if cu_j th \<le> arg_password_length args then
            (if 0 \<le> cu_j th \<and> cu_j th < int (length (cu_password th)) then
               (case store (result_password sh) (cu_j th) (cu_password th ! nat (cu_j th)) of
                  Inl e \<Rightarrow> (sh, th\<lparr>cu_pc := Trapped\<rparr>)
                | Inr buf \<Rightarrow>
                    (sh\<lparr>result_password := buf, writers := writers sh @ [t]\<rparr>,
                     th\<lparr>cu_j := cu_j th + 1\<rparr>))
             else (sh, th\<lparr>cu_pc := Trapped\<rparr>))
          else (sh, th\<lparr>cu_pc := Returned\<rparr>)
      | Returned \<Rightarrow> (sh, th)
      | Trapped \<Rightarrow> (sh, th))"

text \<open>An interleaved execution: the threads take their steps in the order of a schedule.\<close>

type_synonym cuda_state = "cuda_shared \<times> (nat \<Rightarrow> cuda_thread)"

fun cuda_run :: "(string \<Rightarrow> 'h) \<Rightarrow> 'h kernel_args \<Rightarrow> nat list \<Rightarrow> cuda_state \<Rightarrow> cuda_state" where
  "cuda_run md5 args [] s = s"
| "cuda_run md5 args (t # schedule) (sh, ths) =
     (case cuda_thread_step md5 args t sh (ths t) of
        (sh', th') \<Rightarrow> cuda_run md5 args schedule (sh', ths(t := th')))"

text \<open>
  The state \<open>crack_password_cuda\<close> launches the kernel in: the flag and the index are
  cleared by \<open>cudaMemcpy\<close>, the buffers have \<open>MAX_PASSWORD_LENGTH + 1\<close> bytes.
\<close>

definition cuda_initial :: cuda_state where
  "cuda_initial =
     (\<lparr>found_flag = 0, found_at_index = 0,
       result_password = replicate (nat (MAX_PASSWORD_LENGTH + 1)) NUL,
       transitions = [], writers = []\<rparr>,
      \<lambda>t. \<lparr>cu_pc = Start, cu_my_start = 0, cu_i = 0, cu_current_index = 0,
            cu_password = replicate (nat (MAX_PASSWORD_LENGTH + 1)) NUL, cu_old = 0, cu_j = 0\<rparr>)"

text \<open>
  The invariant of the kernel's executions: while the flag is clear nobody has changed
  it; at most one thread has changed it; only threads that changed it have stored to the
  result; and a thread that is about to store, or has read 0 from \<open>atomicCAS\<close>, is one
  that changed it.
\<close>

definition cuda_inv :: "cuda_state \<Rightarrow> bool" where
  "cuda_inv s = (case s of (sh, ths) \<Rightarrow>
     (found_flag sh = 0 \<longrightarrow> transitions sh = []) \<and>
     length (transitions sh) \<le> 1 \<and>
     set (writers sh) \<subseteq> set (transitions sh) \<and>
     (\<forall>t. cu_pc (ths t) = WriteIndex \<or> cu_pc (ths t) = WritePassword \<or>
          (cu_pc (ths t) = Check \<and> cu_old (ths t) = 0) \<longrightarrow> t \<in> set (transitions sh)))"
text \<open>
  No store of the kernel leaves a buffer: the buffers keep their
  \<open>MAX_PASSWORD_LENGTH + 1\<close> bytes, no thread has trapped, and the copy loop's
  \<open>j\<close> is not negative.
\<close>

definition cuda_safe :: "cuda_state \<Rightarrow> bool" where
  "cuda_safe s = (case s of (sh, ths) \<Rightarrow>
     length (result_password sh) = nat (MAX_PASSWORD_LENGTH + 1) \<and>
     (\<forall>t. length (cu_password (ths t)) = nat (MAX_PASSWORD_LENGTH + 1) \<and>
          cu_pc (ths t) \<noteq> Trapped \<and>
          (cu_pc (ths t) = WritePassword \<longrightarrow> 0 \<le> cu_j (ths t))))"

section \<open>Announcing a match: the OpenMP loop\<close>

text \<open>
  The threads of the parallel region run interleaved. \<open>schedule(dynamic)\<close> hands the
  iterations out one at a time, in order, to whichever thread asks next:
  \<open>next_iteration\<close> is the first iteration not yet handed out. The shared variables of
  \<open>crack_password_parallel\<close> are \<open>found\<close>, \<open>found_at\<close>, \<open>found_password\<close> and
  \<open>attempts\<close>; the ghost field \<open>found_setters\<close> lists the threads that stored to
  \<open>found\<close>, \<open>result_writers\<close> the threads that stored to \<open>found_at\<close> or
  \<open>found_password\<close>, one entry per statement.
\<close>

datatype omp_pc =
    Dispatch        \<comment> \<open>asking for the next iteration\<close>
  | TestFound       \<comment> \<open>before \<open>if (found)\<close>\<close>
  | Compare         \<comment> \<open>before \<open>number_to_password\<close>, the hash and \<open>memcmp\<close>\<close>
  | SetFound        \<comment> \<open>before \<open>found = 1\<close>\<close>
  | SetFoundAt      \<comment> \<open>before \<open>found_at = i\<close>\<close>
  | CopyPassword    \<comment> \<open>before \<open>strcpy(found_password, guess)\<close>\<close>
  | Progress        \<comment> \<open>before \<open>if (local_attempts % 10000 == 0)\<close>\<close>
  | Finish          \<comment> \<open>after the loop, before \<open>attempts += local_attempts\<close>\<close>
  | Left            \<comment> \<open>the thread has left the parallel region\<close>
  | Faulted         \<comment> \<open>the thread has stored outside a buffer\<close>

record omp_thread =
  omp_pc :: omp_pc
  omp_i :: u64
  omp_guess :: string
  omp_local_attempts :: u64

record omp_shared =
  next_iteration :: u64
  found :: int
  found_at :: u64
  found_password :: string
  omp_attempts :: u64
  found_setters :: "nat list"
  result_writers :: "nat list"

text \<open>\<open>strcpy(dst, src)\<close>: the C string of \<open>src\<close> and its terminator go to the front of
  \<open>dst\<close>. The copy is taken as one step of the thread.\<close>

definition strcpy :: "string \<Rightarrow> string \<Rightarrow> error + string" where
  "strcpy dst src =
     (if length (c_string src) < length dst
      then Inr (c_string src @ NUL # drop (length (c_string src) + 1) dst)
      else Inl OutOfBounds)"

text \<open>
  One step of thread \<open>t\<close>. \<open>#pragma omp cancel for\<close> ends the thread's share of the
  loop when cancellation is enabled (\<open>OMP_CANCELLATION\<close>) and does nothing otherwise:
  the parameter \<open>cancellation\<close>.
  \<^verbatim>\<open>if (found) {
      #pragma omp cancel for
  }
  number_to_password(i, guess, password_length);
  generate_hash(guess, guess_hash);
  local_attempts++;
  if (memcmp(guess_hash, target_hash, MD5_DIGEST_LENGTH) == 0) {
      found = 1;
      found_at = i;
      strcpy(found_password, guess);
      #pragma omp cancel for
  }\<close>
\<close>

definition omp_thread_step ::
  "(string \<Rightarrow> 'h) \<Rightarrow> bool \<Rightarrow> 'h \<Rightarrow> int \<Rightarrow> u64 \<Rightarrow> nat \<Rightarrow> omp_shared \<Rightarrow> omp_thread \<Rightarrow> omp_shared \<times> omp_thread" where
  "omp_thread_step md5 cancellation target_hash password_length total_combinations t sh th =
     (case omp_pc th of
        Dispatch \<Rightarrow>
          if next_iteration sh < total_combinations
          then (sh\<lparr>next_iteration := next_iteration sh + 1\<rparr>,
                th\<lparr>omp_pc := TestFound, omp_i := next_iteration sh\<rparr>)
          else (sh, th\<lparr>omp_pc := Finish\<rparr>)
      | TestFound \<Rightarrow>
          if found sh \<noteq> 0 \<and> cancellation then (sh, th\<lparr>omp_pc := Finish\<rparr>)
          else (sh, th\<lparr>omp_pc := Compare\<rparr>)
      | Compare \<Rightarrow>
          (case number_to_password (omp_i th) (omp_guess th) password_length of
             Inl e \<Rightarrow> (sh, th\<lparr>omp_pc := Faulted\<rparr>)
           | Inr buf \<Rightarrow>
               (sh, th\<lparr>omp_pc := (if md5 (c_string buf) = target_hash then SetFound else Progress),
                        omp_guess := buf, omp_local_attempts := omp_local_attempts th + 1\<rparr>))
      | SetFound \<Rightarrow>
          (sh\<lparr>found := 1, found_setters := found_setters sh @ [t]\<rparr>, th\<lparr>omp_pc := SetFoundAt\<rparr>)
      | SetFoundAt \<Rightarrow>
          (sh\<lparr>found_at := omp_i th, result_writers := result_writers sh @ [t]\<rparr>,
           th\<lparr>omp_pc := CopyPassword\<rparr>)
      | CopyPassword \<Rightarrow>
          (case strcpy (found_password sh) (omp_guess th) of
             Inl e \<Rightarrow> (sh, th\<lparr>omp_pc := Faulted\<rparr>)
           | Inr buf \<Rightarrow>
               (sh\<lparr>found_password := buf, result_writers := result_writers sh @ [t]\<rparr>,
                th\<lparr>omp_pc := (if cancellation then Finish else Progress)\<rparr>))
      | Progress \<Rightarrow>
          if omp_local_attempts th mod 10000 = 0
          then (sh\<lparr>omp_attempts := omp_attempts sh + omp_local_attempts th\<rparr>,
                th\<lparr>omp_pc := Dispatch, omp_local_attempts := 0\<rparr>)
          else (sh, th\<lparr>omp_pc := Dispatch\<rparr>)
      | Finish \<Rightarrow>
          (sh\<lparr>omp_attempts := omp_attempts sh + omp_local_attempts th\<rparr>, th\<lparr>omp_pc := Left\<rparr>)
      | Left \<Rightarrow> (sh, th)
      | Faulted \<Rightarrow> (sh, th))"

type_synonym omp_state = "omp_shared \<times> (nat \<Rightarrow> omp_thread)"

fun omp_run ::
  "(string \<Rightarrow> 'h) \<Rightarrow> bool \<Rightarrow> 'h \<Rightarrow> int \<Rightarrow> u64 \<Rightarrow> nat list \<Rightarrow> omp_state \<Rightarrow> omp_state" where
  "omp_run md5 cancellation target_hash password_length total_combinations [] s = s"
| "omp_run md5 cancellation target_hash password_length total_combinations (t # schedule) (sh, ths) =
     (case omp_thread_step md5 cancellation target_hash password_length total_combinations t sh (ths t) of
        (sh', th') \<Rightarrow>
          omp_run md5 cancellation target_hash password_length total_combinations schedule
            (sh', ths(t := th')))"

text \<open>The state at the start of the parallel region of \<open>crack_password_parallel\<close>.\<close>

definition omp_initial :: omp_state where
  "omp_initial =
     (\<lparr>next_iteration = 0, found = 0, found_at = 0,
       found_password = replicate (nat (MAX_PASSWORD_LENGTH + 1)) NUL,
       omp_attempts = 0, found_setters = [], result_writers = []\<rparr>,
      \<lambda>t. \<lparr>omp_pc = Dispatch, omp_i = 0,
            omp_guess = replicate (nat (MAX_PASSWORD_LENGTH + 1)) NUL, omp_local_attempts = 0\<rparr>)"

text \<open>\<open>crack_password_parallel\<close> run under a schedule: the hash of the target, the size
  and the parallel region.\<close>

definition crack_password_parallel_run ::
  "(string \<Rightarrow> 'h) \<Rightarrow> bool \<Rightarrow> string \<Rightarrow> int \<Rightarrow> nat list \<Rightarrow> omp_state" where
  "crack_password_parallel_run md5 cancellation target_password password_length schedule =
     omp_run md5 cancellation (md5 target_password) password_length
       (calculate_combinations password_length) schedule omp_initial"

chapter \<open>Properties\<close>

section \<open>Keyspace size\<close>


lemma calculate_combinations_loop_eq:
  "calculate_combinations_loop i len tot = tot * 26 ^ nat (len - i)"
proof (induction i len tot rule: calculate_combinations_loop.induct)
  case (1 i len tot)
  show ?case
  proof (cases "i < len")
    case True
    then have "nat (len - i) = Suc (nat (len - (i + 1)))" by simp
    with True "1" show ?thesis
      by (subst calculate_combinations_loop.simps) (simp add: CHARSET_SIZE_def mult.assoc)
  next
    case False
    then show ?thesis by (subst calculate_combinations_loop.simps) simp
  qed
qed

lemma calculate_combinations_eq: "calculate_combinations len = 26 ^ nat len"
  by (simp add: calculate_combinations_def calculate_combinations_loop_eq)

lemma unat_power26: "unat ((26 :: u64) ^ n) = 26 ^ n mod 2 ^ 64"
proof -
  have "(26 :: u64) ^ n = of_nat (26 ^ n)" by simp
  then show ?thesis by (simp only: unat_of_nat) simp
qed

lemma power26_fits: "n \<le> 13 \<Longrightarrow> (26::nat) ^ n < 2 ^ 64"
proof -
  assume "n \<le> 13"
  then have "(26::nat) ^ n \<le> 26 ^ 13" by (intro power_increasing) simp_all
  also have "\<dots> < 2 ^ 64" by simp
  finally show ?thesis .
qed

lemma unat_calculate_combinations:
  "unat (calculate_combinations len) = 26 ^ nat len mod 2 ^ 64"
  by (simp only: calculate_combinations_eq unat_power26)

text \<open>
  Claim C7, as the code has it: \<open>calculate_combinations\<close> has no overflow check
  and no failure path. For every length it returns \<open>26 ^ length\<close> reduced modulo
  \<open>2 ^ 64\<close> (a length below 0 counts as 0); this is the exact value for every
  length up to 13, so for every length up to \<open>MAX_PASSWORD_LENGTH\<close>, and a
  silently wrapped value from length 14 on.
\<close>

theorem calculate_combinations_wraps:
  "unat (calculate_combinations len) = 26 ^ nat len mod 2 ^ 64 \<and>
   (len \<le> 13 \<longrightarrow> unat (calculate_combinations len) = 26 ^ nat len)"
proof -
  have "len \<le> 13 \<Longrightarrow> (26::nat) ^ nat len < 2 ^ 64"
    by (rule power26_fits) simp
  then show ?thesis by (simp add: unat_calculate_combinations)
qed

theorem calculate_combinations_wraps_witness:
  "(10::int) \<le> 13 \<and> unat (calculate_combinations 10) = 141167095653376 \<and>
   unat (calculate_combinations 14) = 9169742482168496128"
  using calculate_combinations_wraps [of 10] calculate_combinations_wraps [of 14] by simp

text \<open>
  Claim C7 as stated asks for an overflow failure when \<open>26 ^ length\<close> does not fit
  in 64 bits. At length 14 the exact value does not fit, and the function returns the
  wrapped value.
\<close>

theorem calculate_combinations_overflow_counterexample:
  "(2::nat) ^ 64 \<le> 26 ^ nat 14 \<and>
   unat (calculate_combinations 14) = 9169742482168496128 \<and>
   unat (calculate_combinations 14) \<noteq> 26 ^ nat 14"
  by (simp add: unat_calculate_combinations)


section \<open>Decoding an index\<close>

lemma length_digits26 [simp]: "length (digits26 m n) = n"
  by (induction n arbitrary: m) auto

lemma length_CHARSET [simp]: "length CHARSET = 26"
  by (simp add: CHARSET_def)

lemma distinct_CHARSET: "distinct CHARSET"
  by (simp add: CHARSET_def)

lemma NUL_notin_CHARSET: "NUL \<notin> set CHARSET"
  by (simp add: CHARSET_def NUL_def)

lemma set_digits26: "set (digits26 m n) \<subseteq> set CHARSET"
  by (induction n arbitrary: m) auto

lemma store_Inr: "0 \<le> i \<Longrightarrow> i < int (length buf) \<Longrightarrow> store buf i c = Inr (buf[nat i := c])"
  by (simp add: store_def)

lemma number_to_password_loop_eq:
  "- 1 \<le> i \<Longrightarrow> i < int (length password) \<Longrightarrow>
   number_to_password_loop i num password =
     Inr (digits26 (unat num) (nat (i + 1)) @ drop (nat (i + 1)) password)"
proof (induction i num password rule: number_to_password_loop.induct)
  case (1 i num password)
  show ?case
  proof (cases "i \<ge> 0")
    case False
    with "1.prems" have "i = - 1" by simp
    then show ?thesis by (subst number_to_password_loop.simps) simp
  next
    case True
    define c where "c = CHARSET ! unat (num mod CHARSET_SIZE)"
    have st: "store password i c = Inr (password[nat i := c])"
      using True "1.prems" by (simp add: store_Inr)
    have ih: "number_to_password_loop (i - 1) (num div CHARSET_SIZE) (password[nat i := c]) =
        Inr (digits26 (unat (num div CHARSET_SIZE)) (nat (i - 1 + 1)) @
             drop (nat (i - 1 + 1)) (password[nat i := c]))"
      using "1.IH" [OF True, of "password[nat i := c]"] st True "1.prems" by (simp add: c_def)
    have n: "nat (i + 1) = Suc (nat i)" using True by simp
    have lt: "nat i < length password" using True "1.prems" by simp
    have dr: "drop (nat i) (password[nat i := c]) = c # drop (Suc (nat i)) password"
      using lt by (simp add: drop_update_cancel flip: Cons_nth_drop_Suc)
    have u: "unat (num div CHARSET_SIZE) = unat num div 26" "unat (num mod CHARSET_SIZE) = unat num mod 26"
      by (simp_all add: CHARSET_SIZE_def unat_div unat_mod)
    show ?thesis
      apply (subst number_to_password_loop.simps)
      using True st ih dr u n by (simp add: c_def)
  qed
qed

lemma length_number_to_password_loop:
  "number_to_password_loop i num password = Inr password' \<Longrightarrow> length password' = length password"
proof (induction i num password rule: number_to_password_loop.induct)
  case (1 i num password)
  show ?case
  proof (cases "i \<ge> 0")
    case False
    with "1.prems" show ?thesis by (subst (asm) number_to_password_loop.simps) simp
  next
    case True
    show ?thesis
      using "1.prems" True "1.IH"
      by (subst (asm) number_to_password_loop.simps)
         (auto simp: store_def split: sum.splits if_splits)
  qed
qed

lemma number_to_password_Inr:
  assumes "0 \<le> len" "len < int (length password)"
  shows "number_to_password num password len =
           Inr (digits26 (unat num) (nat len) @ NUL # drop (nat len + 1) password)"
proof -
  have "number_to_password_loop (len - 1) num password =
          Inr (digits26 (unat num) (nat len) @ drop (nat len) password)"
    using number_to_password_loop_eq [of "len - 1" password num] assms by simp
  moreover have "store (digits26 (unat num) (nat len) @ drop (nat len) password) len NUL =
          Inr (digits26 (unat num) (nat len) @ NUL # drop (nat len + 1) password)"
  proof -
    have "nat len < length password" using assms by simp
    then have "(drop (nat len) password)[0 := NUL] = NUL # drop (nat len + 1) password"
      by (simp flip: Cons_nth_drop_Suc)
    then show ?thesis using assms by (simp add: store_def list_update_append)
  qed
  ultimately show ?thesis by (simp add: number_to_password_def)
qed

lemma number_to_password_Inl:
  assumes "len < 0 \<or> int (length password) \<le> len"
  shows "number_to_password num password len = Inl OutOfBounds"
proof (cases "number_to_password_loop (len - 1) num password")
  case (Inl e)
  then show ?thesis by (cases e) (simp add: number_to_password_def)
next
  case (Inr password')
  then have "length password' = length password" by (rule length_number_to_password_loop)
  with Inr assms show ?thesis by (auto simp: number_to_password_def store_def)
qed

lemma c_string_digits26:
  "c_string (digits26 m n @ NUL # rest) = digits26 m n"
proof -
  have "\<forall>c \<in> set (digits26 m n). c \<noteq> NUL"
    using set_digits26 [of m n] NUL_notin_CHARSET by auto
  then show ?thesis by (simp add: c_string_def takeWhile_append2)
qed

lemma candidate_eq: "candidate num len = digits26 (unat num) (nat len)"
proof (cases "0 \<le> len")
  case True
  then show ?thesis
    by (simp add: candidate_def number_to_password_Inr c_string_digits26)
next
  case False
  then show ?thesis by (simp add: candidate_def number_to_password_Inl)
qed

lemma number_to_password_candidate:
  assumes "0 \<le> len" "len < int (length password)"
  shows "\<exists>password'. number_to_password num password len = Inr password' \<and>
           length password' = length password \<and> c_string password' = candidate num len"
  using assms by (simp add: number_to_password_Inr c_string_digits26 candidate_eq)

lemma digits26_mod: "digits26 (m mod 26 ^ n) n = digits26 m n"
proof (induction n arbitrary: m)
  case 0
  show ?case by simp
next
  case (Suc n)
  have "(m mod 26 ^ Suc n) div 26 = (m div 26) mod 26 ^ n"
    by (simp add: div_mult2_eq mod_mult2_eq)
  moreover have "(m mod 26 ^ Suc n) mod 26 = m mod 26"
    by (simp add: mod_mod_cancel)
  ultimately show ?case using Suc.IH [of "m div 26"] by simp
qed

lemma digits26_inj:
  "a < 26 ^ n \<Longrightarrow> b < 26 ^ n \<Longrightarrow> digits26 a n = digits26 b n \<Longrightarrow> a = b"
proof (induction n arbitrary: a b)
  case 0
  then show ?case by simp
next
  case (Suc n)
  from Suc.prems have da: "a div 26 < 26 ^ n" and db: "b div 26 < 26 ^ n"
    by (simp_all add: less_mult_imp_div_less mult.commute)
  from Suc.prems(3) have e1: "digits26 (a div 26) n = digits26 (b div 26) n"
    and e2: "CHARSET ! (a mod 26) = CHARSET ! (b mod 26)" by simp_all
  from e2 have "a mod 26 = b mod 26"
    using distinct_CHARSET by (simp add: nth_eq_iff_index_eq)
  moreover from Suc.IH [OF da db e1] have "a div 26 = b div 26" .
  ultimately show ?case by (metis div_mult_mod_eq)
qed

lemma digits26_surj:
  "length s = n \<Longrightarrow> set s \<subseteq> set CHARSET \<Longrightarrow> \<exists>m < 26 ^ n. digits26 m n = s"
proof (induction n arbitrary: s)
  case 0
  then show ?case by simp
next
  case (Suc n)
  then obtain s' c where s: "s = s' @ [c]"
    by (metis length_Suc_conv_rev)
  with Suc.prems have "length s' = n" "set s' \<subseteq> set CHARSET" "c \<in> set CHARSET" by auto
  then obtain m d where m: "m < 26 ^ n" "digits26 m n = s'" and d: "d < 26" "CHARSET ! d = c"
    using Suc.IH [of s'] by (auto simp: in_set_conv_nth)
  have "m * 26 + d < 26 ^ Suc n"
  proof -
    have "m * 26 + d < (m + 1) * 26" using d by simp
    also have "\<dots> \<le> 26 ^ n * 26" using m by (intro mult_right_mono) simp_all
    finally show ?thesis by simp
  qed
  moreover have "digits26 (m * 26 + d) (Suc n) = s" using m d s by simp
  ultimately show ?case by blast
qed

text \<open>
  Claim C2: for every length from 1 to \<open>MAX_PASSWORD_LENGTH\<close>, index \<open>\<mapsto>\<close>
  candidate is a bijection from the indices below \<open>26 ^ length\<close> onto the strings
  of that length over the alphabet: distinct indices give distinct candidates and every
  such string is the candidate of exactly one index.
\<close>

theorem number_to_password_bijection:
  assumes "1 \<le> len" "len \<le> MAX_PASSWORD_LENGTH"
  shows "bij_betw (\<lambda>num. candidate num len) {num. unat num < 26 ^ nat len}
           {s. length s = nat len \<and> set s \<subseteq> set CHARSET}"
proof -
  have fits: "(26::nat) ^ nat len < 2 ^ 64"
    using assms by (intro power26_fits) (simp add: MAX_PASSWORD_LENGTH_def)
  have "inj_on (\<lambda>num. candidate num len) {num. unat num < 26 ^ nat len}"
  proof (rule inj_onI)
    fix a b :: u64
    assume "a \<in> {num. unat num < 26 ^ nat len}" "b \<in> {num. unat num < 26 ^ nat len}"
      and "candidate a len = candidate b len"
    then have "unat a = unat b"
      by (auto simp: candidate_eq intro: digits26_inj)
    then show "a = b" by (simp add: word_unat_eq_iff)
  qed
  moreover have "(\<lambda>num. candidate num len) ` {num. unat num < 26 ^ nat len} =
      {s. length s = nat len \<and> set s \<subseteq> set CHARSET}"
  proof (intro equalityI subsetI)
    fix s
    assume "s \<in> (\<lambda>num. candidate num len) ` {num. unat num < 26 ^ nat len}"
    then show "s \<in> {s. length s = nat len \<and> set s \<subseteq> set CHARSET}"
      using set_digits26 by (auto simp: candidate_eq)
  next
    fix s
    assume "s \<in> {s. length s = nat len \<and> set s \<subseteq> set CHARSET}"
    then obtain m where m: "m < 26 ^ nat len" "digits26 m (nat len) = s"
      using digits26_surj [of s "nat len"] by auto
    with fits have "unat (word_of_nat m :: u64) = m"
      by (simp add: unat_of_nat)
    with m have "word_of_nat m \<in> {num :: u64. unat num < 26 ^ nat len}"
      and "candidate (word_of_nat m) len = s"
      by (simp_all add: candidate_eq)
    then show "s \<in> (\<lambda>num. candidate num len) ` {num. unat num < 26 ^ nat len}"
      by blast
  qed
  ultimately show ?thesis by (simp add: bij_betw_def)
qed

theorem number_to_password_bijection_witness:
  "(1::int) \<le> 2 \<and> 2 \<le> MAX_PASSWORD_LENGTH \<and>
   bij_betw (\<lambda>num. candidate num 2) {num. unat num < 26 ^ nat 2}
     {s. length s = nat 2 \<and> set s \<subseteq> set CHARSET} \<and>
   candidate 0 2 = ''aa'' \<and> candidate 27 2 = ''bb'' \<and> candidate 675 2 = ''zz''"
proof -
  have h: "(1::int) \<le> 2" "2 \<le> MAX_PASSWORD_LENGTH" by (simp_all add: MAX_PASSWORD_LENGTH_def)
  have "candidate 0 2 = ''aa''" "candidate 27 2 = ''bb''" "candidate 675 2 = ''zz''"
    by code_simp+
  with h number_to_password_bijection [OF h] show ?thesis by simp
qed

text \<open>
  Claim C8, as the code has it: \<open>number_to_password\<close> checks no index. For every
  length from 0 on that the buffer has room for, and every 64-bit index, also one at or
  beyond the keyspace size, it returns a candidate of exactly \<open>length\<close> characters:
  the candidate of the index reduced modulo \<open>26 ^ length\<close>.
\<close>

theorem number_to_password_no_index_check:
  assumes "0 \<le> len" "len < int (length password)"
  shows "\<exists>password'. number_to_password num password len = Inr password' \<and>
           length (c_string password') = nat len \<and>
           set (c_string password') \<subseteq> set CHARSET \<and>
           c_string password' = candidate (word_of_nat (unat num mod 26 ^ nat len)) len"
proof -
  have "unat num mod 26 ^ nat len \<le> unat num" by simp
  also have "\<dots> < 2 ^ 64" using unsigned_less [of num] by simp
  finally have "unat (word_of_nat (unat num mod 26 ^ nat len) :: u64) = unat num mod 26 ^ nat len"
    by (simp add: unat_of_nat)
  then show ?thesis
    using assms set_digits26 [of "unat num" "nat len"]
    by (simp add: number_to_password_Inr c_string_digits26 candidate_eq digits26_mod)
qed

theorem number_to_password_no_index_check_witness:
  "(0::int) \<le> 1 \<and> (1::int) < int (length [NUL, NUL]) \<and>
   (\<exists>password'. number_to_password 27 [NUL, NUL] 1 = Inr password' \<and>
      length (c_string password') = nat 1 \<and>
      set (c_string password') \<subseteq> set CHARSET \<and>
      c_string password' = candidate (word_of_nat (unat (27 :: u64) mod 26 ^ nat 1)) 1)"
  using number_to_password_no_index_check [of 1 "[NUL, NUL]" 27] by simp

text \<open>
  Claim C8 as stated asks for a failure at an index at or beyond the keyspace size.
  Index 26 at length 1 is such an index (the size is 26), and the function returns the
  candidate of index 0.
\<close>

theorem number_to_password_invalid_index_counterexample:
  "calculate_combinations 1 \<le> 26 \<and>
   number_to_password 26 [NUL, NUL] 1 = Inr [CHR ''a'', NUL] \<and>
   candidate 26 1 = ''a'' \<and> candidate 0 1 = ''a''"
  by code_simp

section \<open>The serial search\<close>

lemma unat_Suc_less: "i < t \<Longrightarrow> unat (i + 1) = Suc (unat i)" for i t :: u64
proof -
  assume "i < t"
  then have "unat i < unat t" by (simp add: word_less_nat_alt)
  moreover have "unat t < 2 ^ 64" using unsigned_less [of t] by simp
  ultimately have "unat i + unat (1 :: u64) < 2 ^ LENGTH(64)" by simp
  then have "unat (i + 1) = unat i + unat (1 :: u64)" by (simp only: unat_add_lem)
  then show ?thesis by simp
qed

lemma le_plus_one: "i < t \<Longrightarrow> i \<le> i + 1" for i t :: u64
  by (simp add: word_le_nat_alt unat_Suc_less)

lemma plus_one_leD: "i < t \<Longrightarrow> i + 1 \<le> j \<Longrightarrow> i \<le> j" for i j t :: u64
  by (rule order_trans [OF le_plus_one])

lemma serial_loop_not_found:
  assumes "0 \<le> len" "len < int (length guess)" "i \<le> tot"
    and "\<forall>j. i \<le> j \<and> j < tot \<longrightarrow> md5 (candidate j len) \<noteq> target_hash"
  shows "crack_password_serial_loop md5 target_hash len tot i attempts guess =
           Inr (NotFound (attempts + (tot - i)))"
  using assms
proof (induction md5 target_hash len tot i attempts guess rule: crack_password_serial_loop.induct)
  case (1 md5 target_hash len tot i attempts guess)
  show ?case
  proof (cases "i < tot")
    case False
    with "1.prems" have "i = tot" by simp
    then show ?thesis by (subst crack_password_serial_loop.simps) simp
  next
    case True
    obtain guess' where g: "number_to_password i guess len = Inr guess'"
      "length guess' = length guess" "c_string guess' = candidate i len"
      using number_to_password_candidate [OF "1.prems"(1,2)] by blast
    have nm: "md5 (c_string guess') \<noteq> target_hash" using "1.prems"(4) True g by simp
    have le: "i + 1 \<le> tot" using True by (rule inc_le)
    have "\<forall>j. i + 1 \<le> j \<and> j < tot \<longrightarrow> md5 (candidate j len) \<noteq> target_hash"
    proof (intro allI impI)
      fix j assume j: "i + 1 \<le> j \<and> j < tot"
      have "i \<le> j" using True j by (blast intro: plus_one_leD)
      with j "1.prems"(4) show "md5 (candidate j len) \<noteq> target_hash" by blast
    qed
    with "1.IH" [OF True g(1) nm "1.prems"(1)] g(2) "1.prems"(2) le
    have "crack_password_serial_loop md5 target_hash len tot (i + 1) (attempts + 1) guess' =
        Inr (NotFound (attempts + 1 + (tot - (i + 1))))" by simp
    then show ?thesis
      using True g nm by (subst crack_password_serial_loop.simps) simp
  qed
qed

lemma serial_loop_found:
  assumes "0 \<le> len" "len < int (length guess)" "i \<le> k" "k < tot"
    and "md5 (candidate k len) = target_hash"
    and "\<forall>j. i \<le> j \<and> j < k \<longrightarrow> md5 (candidate j len) \<noteq> target_hash"
  shows "crack_password_serial_loop md5 target_hash len tot i attempts guess =
           Inr (Found (candidate k len) (attempts + (k - i) + 1))"
  using assms
proof (induction md5 target_hash len tot i attempts guess rule: crack_password_serial_loop.induct)
  case (1 md5 target_hash len tot i attempts guess)
  have lt: "i < tot" using "1.prems"(3,4) by simp
  obtain guess' where g: "number_to_password i guess len = Inr guess'"
    "length guess' = length guess" "c_string guess' = candidate i len"
    using number_to_password_candidate [OF "1.prems"(1,2)] by blast
  show ?case
  proof (cases "i = k")
    case True
    then show ?thesis
      using lt g "1.prems"(5) by (subst crack_password_serial_loop.simps) simp
  next
    case False
    with "1.prems"(3) have ik: "i < k" by simp
    then have nm: "md5 (c_string guess') \<noteq> target_hash" using "1.prems"(6) g by simp
    have le: "i + 1 \<le> k" using ik by (rule inc_le)
    have "\<forall>j. i + 1 \<le> j \<and> j < k \<longrightarrow> md5 (candidate j len) \<noteq> target_hash"
    proof (intro allI impI)
      fix j assume j: "i + 1 \<le> j \<and> j < k"
      have "i \<le> j" using ik j by (blast intro: plus_one_leD)
      with j "1.prems"(6) show "md5 (candidate j len) \<noteq> target_hash" by blast
    qed
    with "1.IH" [OF lt g(1) nm "1.prems"(1)] g(2) "1.prems"(2,4,5) le
    have "crack_password_serial_loop md5 target_hash len tot (i + 1) (attempts + 1) guess' =
        Inr (Found (candidate k len) (attempts + 1 + (k - (i + 1)) + 1))" by simp
    then show ?thesis
      using lt g nm by (subst crack_password_serial_loop.simps) simp
  qed
qed


text \<open>
  The search on the lengths 0 to 9, for which the buffer has room. The smallest index
  below the size whose candidate has the target's fingerprint is the one found, after
  that index plus one attempts.
\<close>

lemma crack_password_serial_first_match:
  assumes "0 \<le> len" "len < MAX_PASSWORD_LENGTH" "k < calculate_combinations len"
    and "md5 (candidate k len) = md5 target_password"
    and "\<forall>j. j < k \<longrightarrow> md5 (candidate j len) \<noteq> md5 target_password"
  shows "crack_password_serial md5 target_password len = Inr (Found (candidate k len) (k + 1))"
proof -
  have "len < int (length (replicate (nat MAX_PASSWORD_LENGTH) NUL))"
    using assms(2) by (simp add: MAX_PASSWORD_LENGTH_def)
  from serial_loop_found [OF assms(1) this, of 0 k "calculate_combinations len" md5 "md5 target_password" 0]
    assms(3,4,5)
  show ?thesis by (simp add: crack_password_serial_def)
qed

lemma least_match:
  fixes k :: u64
  assumes "P k"
  shows "\<exists>m. P m \<and> m \<le> k \<and> (\<forall>j. j < m \<longrightarrow> \<not> P j)"
proof -
  from assms obtain m where m: "P m" "\<forall>y. P y \<longrightarrow> unat m \<le> unat y"
    using ex_has_least_nat [of P k unat] by blast
  then have "m \<le> k" using assms by (simp add: word_le_nat_alt)
  moreover have "\<forall>j. j < m \<longrightarrow> \<not> P j"
    using m(2) by (auto simp: word_less_nat_alt)
  ultimately show ?thesis using m(1) by blast
qed

text \<open>
  If some index below the size has the target's fingerprint, the search returns the
  found status with a candidate that has the target's fingerprint.
\<close>

lemma crack_password_serial_finds_match:
  assumes "0 \<le> len" "len < MAX_PASSWORD_LENGTH"
    and "\<exists>k. k < calculate_combinations len \<and> md5 (candidate k len) = md5 target_password"
  shows "\<exists>guess attempts. crack_password_serial md5 target_password len = Inr (Found guess attempts) \<and>
           md5 guess = md5 target_password"
proof -
  from assms(3) obtain k where k: "k < calculate_combinations len"
    "md5 (candidate k len) = md5 target_password" by blast
  from least_match [of "\<lambda>j. md5 (candidate j len) = md5 target_password" k, OF k(2)]
  obtain m where m: "md5 (candidate m len) = md5 target_password" "m \<le> k"
    "\<forall>j. j < m \<longrightarrow> md5 (candidate j len) \<noteq> md5 target_password" by blast
  from m(2) k(1) have "m < calculate_combinations len" by simp
  from crack_password_serial_first_match [OF assms(1,2) this m(1,3)] m(1)
  show ?thesis by simp
qed

text \<open>
  If no index below the size has the target's fingerprint, the search returns the
  exhausted status and its attempts are the size, which is \<open>26 ^ length\<close>.
\<close>

lemma crack_password_serial_exhausts:
  assumes "0 \<le> len" "len < MAX_PASSWORD_LENGTH"
    and "\<forall>k. k < calculate_combinations len \<longrightarrow> md5 (candidate k len) \<noteq> md5 target_password"
  shows "crack_password_serial md5 target_password len = Inr (NotFound (calculate_combinations len)) \<and>
         unat (calculate_combinations len) = 26 ^ nat len"
proof -
  have "len < int (length (replicate (nat MAX_PASSWORD_LENGTH) NUL))"
    using assms(2) by (simp add: MAX_PASSWORD_LENGTH_def)
  from serial_loop_not_found [OF assms(1) this, of 0 "calculate_combinations len" md5 "md5 target_password" 0]
    assms(3)
  have "crack_password_serial md5 target_password len = Inr (NotFound (calculate_combinations len))"
    by (simp add: crack_password_serial_def)
  moreover have "unat (calculate_combinations len) = 26 ^ nat len"
  proof -
    have "(26::nat) ^ nat len < 2 ^ 64"
      using assms(2) by (intro power26_fits) (simp add: MAX_PASSWORD_LENGTH_def)
    then show ?thesis by (simp add: unat_calculate_combinations)
  qed
  ultimately show ?thesis by simp
qed

text \<open>
  At a length the buffer has no room for, and at a length below 0, the first iteration
  stores outside the buffer.
\<close>

lemma crack_password_serial_overflow:
  assumes "len < 0 \<or> MAX_PASSWORD_LENGTH \<le> len" "calculate_combinations len \<noteq> 0"
  shows "crack_password_serial md5 target_password len = Inl OutOfBounds"
proof -
  have "0 < calculate_combinations len" using assms(2) by (simp add: word_greater_zero_iff)
  moreover have "number_to_password 0 (replicate (nat MAX_PASSWORD_LENGTH) NUL) len = Inl OutOfBounds"
    using assms(1) by (intro number_to_password_Inl) (simp add: MAX_PASSWORD_LENGTH_def)
  ultimately show ?thesis
    by (simp add: crack_password_serial_def crack_password_serial_loop.simps [of _ _ _ _ 0])
qed

text \<open>
  Three runs at length 2. With the identity as fingerprint the target \<open>ab\<close> is found
  at its own index, 1. With the first character as fingerprint the target \<open>bz\<close>
  shares its fingerprint with 26 candidates and the search returns the first of them,
  \<open>ba\<close>, not the target. The target \<open>A\<close> has no candidate of length 1.
\<close>

lemma crack_password_serial_runs:
  "crack_password_serial (\<lambda>s. s) ''ab'' 2 = Inr (Found ''ab'' 2)"
  "crack_password_serial (\<lambda>s. take 1 s) ''bz'' 2 = Inr (Found ''ba'' 27)"
  "crack_password_serial (\<lambda>s. s) ''A'' 1 = Inr (NotFound 26)"
  by code_simp+

section \<open>The serial search at length \<open>MAX_PASSWORD_LENGTH\<close>\<close>

text \<open>
  Lemmas \<open>crack_password_serial_finds_match\<close>, \<open>crack_password_serial_exhausts\<close>
  and \<open>crack_password_serial_first_match\<close> above give the search's result for the
  lengths 0 to 9. At length 10, which \<open>main\<close> accepts, the first call
  \<open>number_to_password(0, guess, 10)\<close> stores the terminator at \<open>guess[10]\<close>,
  outside \<open>char guess[MAX_PASSWORD_LENGTH]\<close>.
\<close>

lemma candidate_length: "length (candidate num len) = nat len"
  by (simp add: candidate_eq)

lemma crack_password_serial_length_10:
  "crack_password_serial md5 target_password MAX_PASSWORD_LENGTH = Inl OutOfBounds"
  by (rule crack_password_serial_overflow)
     (simp_all add: MAX_PASSWORD_LENGTH_def calculate_combinations_eq)

text \<open>
  Claim C1 at length 10: the target \<open>aaaaaaaaaa\<close> is the candidate of index 0, which
  is below the size, so an index with the target's fingerprint exists for every
  fingerprint function; the search does not return the found status, it stores outside
  its buffer.
\<close>

theorem crack_password_serial_found_overflow:
  "0 < calculate_combinations MAX_PASSWORD_LENGTH \<and>
   md5 (candidate 0 MAX_PASSWORD_LENGTH) = md5 ''aaaaaaaaaa'' \<and>
   crack_password_serial md5 ''aaaaaaaaaa'' MAX_PASSWORD_LENGTH = Inl OutOfBounds"
proof -
  have "candidate 0 MAX_PASSWORD_LENGTH = ''aaaaaaaaaa''"
    unfolding MAX_PASSWORD_LENGTH_def by code_simp
  moreover have "0 < calculate_combinations MAX_PASSWORD_LENGTH"
    by (simp add: MAX_PASSWORD_LENGTH_def calculate_combinations_eq)
  ultimately show ?thesis by (simp add: crack_password_serial_length_10)
qed

text \<open>
  Claim C3 at length 10: with the identity as fingerprint, no candidate of length 10 has
  the fingerprint of the one-character target \<open>A\<close>; the search does not return the
  exhausted status with \<open>26 ^ 10\<close> attempts, it stores outside its buffer.
\<close>

theorem crack_password_serial_exhausted_overflow:
  "''A'' \<notin> range (\<lambda>k. candidate k MAX_PASSWORD_LENGTH) \<and>
   crack_password_serial (\<lambda>s. s) ''A'' MAX_PASSWORD_LENGTH = Inl OutOfBounds"
proof -
  have "''A'' \<notin> range (\<lambda>k. candidate k MAX_PASSWORD_LENGTH)"
  proof
    assume "''A'' \<in> range (\<lambda>k. candidate k MAX_PASSWORD_LENGTH)"
    then obtain k where "candidate k MAX_PASSWORD_LENGTH = ''A''" by auto
    then have "length (candidate k MAX_PASSWORD_LENGTH) = 1" by simp
    then show False by (simp add: candidate_length MAX_PASSWORD_LENGTH_def)
  qed
  then show ?thesis by (simp add: crack_password_serial_length_10)
qed

text \<open>
  Claim C10 at length 10: with the identity as fingerprint and the target
  \<open>aaaaaaaaab\<close>, index 1 is the smallest matching index; the search does not return
  that candidate with 2 attempts, it stores outside its buffer.
\<close>

theorem crack_password_serial_first_match_overflow:
  "candidate 1 MAX_PASSWORD_LENGTH = ''aaaaaaaaab'' \<and>
   candidate 0 MAX_PASSWORD_LENGTH \<noteq> ''aaaaaaaaab'' \<and>
   crack_password_serial (\<lambda>s. s) ''aaaaaaaaab'' MAX_PASSWORD_LENGTH = Inl OutOfBounds"
proof -
  have "candidate 1 MAX_PASSWORD_LENGTH = ''aaaaaaaaab''"
    "candidate 0 MAX_PASSWORD_LENGTH \<noteq> ''aaaaaaaaab''"
    unfolding MAX_PASSWORD_LENGTH_def by code_simp+
  then show ?thesis by (simp add: crack_password_serial_length_10)
qed

section \<open>Entry points: validation of the target\<close>

lemma scanf_s_fits:
  assumes "length token \<le> 10" "NUL \<notin> set token"
  shows "\<exists>password. scanf_s token (replicate (nat (MAX_PASSWORD_LENGTH + 1)) NUL) = Inr password \<and>
           c_string password = token \<and> strlen password = int (length token) \<and>
           take (length token) password = token"
proof -
  have "takeWhile (\<lambda>c. c \<noteq> NUL) (token @ NUL # rest) = token" for rest
    using assms(2) by (subst takeWhile_append2) auto
  then show ?thesis
    using assms(1) by (simp add: scanf_s_def MAX_PASSWORD_LENGTH_def strlen_def c_string_def)
qed

text \<open>
  The serial, OpenMP and CUDA entry points reject, with exit code 1 and without calling
  the search, every token of at most \<open>MAX_PASSWORD_LENGTH\<close> characters that has a
  character outside a to z.
\<close>

lemma main_serial_rejects_symbol:
  assumes "length token \<le> 10" "NUL \<notin> set token" "\<exists>c \<in> set token. not_lowercase c"
  shows "main_serial md5 token = Inr (Rejected 1)"
proof -
  from scanf_s_fits [OF assms(1,2)] obtain password where
    p: "scanf_s token (replicate (nat (MAX_PASSWORD_LENGTH + 1)) NUL) = Inr password"
      "strlen password = int (length token)" "take (length token) password = token" by blast
  then show ?thesis
    using assms(1,3) by (simp add: main_serial_def MAX_PASSWORD_LENGTH_def list_ex_iff Let_def)
qed

lemma main_openmp_rejects_symbol:
  assumes "length token \<le> 10" "NUL \<notin> set token" "\<exists>c \<in> set token. not_lowercase c"
  shows "main_openmp crack token = Inr (Rejected 1)"
proof -
  from scanf_s_fits [OF assms(1,2)] obtain password where
    p: "scanf_s token (replicate (nat (MAX_PASSWORD_LENGTH + 1)) NUL) = Inr password"
      "strlen password = int (length token)" "take (length token) password = token" by blast
  then show ?thesis
    using assms(1,3) by (simp add: main_openmp_def MAX_PASSWORD_LENGTH_def list_ex_iff Let_def)
qed

lemma main_cuda_rejects_symbol:
  assumes "length token \<le> 10" "NUL \<notin> set token" "\<exists>c \<in> set token. not_lowercase c"
  shows "main_cuda crack token = Inr (Rejected 1)"
proof -
  from scanf_s_fits [OF assms(1,2)] obtain password where
    p: "scanf_s token (replicate (nat (MAX_PASSWORD_LENGTH + 1)) NUL) = Inr password"
      "strlen password = int (length token)" "take (length token) password = token" by blast
  then show ?thesis
    using assms(1,3) by (simp add: main_cuda_def MAX_PASSWORD_LENGTH_def list_ex_iff Let_def)
qed

text \<open>
  A token longer than \<open>MAX_PASSWORD_LENGTH\<close> characters does not reach the length
  check of any entry point: \<open>scanf\<close> has already stored it beyond the 11-byte buffer.
\<close>

lemma scanf_s_overflow:
  "10 < length token \<Longrightarrow> scanf_s token (replicate (nat (MAX_PASSWORD_LENGTH + 1)) NUL) = Inl OutOfBounds"
  by (simp add: scanf_s_def MAX_PASSWORD_LENGTH_def)

lemma main_serial_long_token: "10 < length token \<Longrightarrow> main_serial md5 token = Inl OutOfBounds"
  by (simp add: main_serial_def scanf_s_overflow)

lemma main_mpi_long_token:
  "10 < length token \<Longrightarrow> main_mpi md5 mpi_crack rank world_size token = Inl OutOfBounds"
  by (simp add: main_mpi_def scanf_s_overflow)

text \<open>
  The serial entry point accepts a target of ten lowercase letters and calls the search
  at length 10, where the search stores outside its buffer.
\<close>

lemma main_serial_length_10: "main_serial md5 ''aaaaaaaaaa'' = Inl OutOfBounds"
proof -
  have "crack_password_serial md5 ''aaaaaaaaaa'' 10 = Inl OutOfBounds"
    using crack_password_serial_length_10 [of md5 "''aaaaaaaaaa''"]
    by (simp add: MAX_PASSWORD_LENGTH_def)
  then show ?thesis
    by (simp add: main_serial_def scanf_s_def MAX_PASSWORD_LENGTH_def strlen_def c_string_def
        NUL_def not_lowercase_def Let_def)
qed

text \<open>
  Claim C9 fails at the MPI entry point: it validates nothing. For the token \<open>A1\<close>,
  which has no character of the alphabet, it computes the fingerprint, calls
  \<open>mpi_crack\<close> with length 2 and returns 0, where the serial entry point returns 1
  without searching.
\<close>

theorem main_mpi_accepts_invalid_target:
  "main_mpi md5 mpi_crack rank world_size ''A1'' =
     Inr (Searched (mpi_crack (md5 ''A1'') 2 rank world_size) 0) \<and>
   main_serial md5 ''A1'' = Inr (Rejected 1)"
proof -
  have "main_mpi md5 mpi_crack rank world_size ''A1'' =
     Inr (Searched (mpi_crack (md5 ''A1'') 2 rank world_size) 0)"
    by (simp add: main_mpi_def scanf_s_def MAX_PASSWORD_LENGTH_def strlen_def c_string_def NUL_def)
  moreover have "main_serial md5 ''A1'' = Inr (Rejected 1)"
    by (rule main_serial_rejects_symbol) (simp_all add: NUL_def not_lowercase_def)
  ultimately show ?thesis by simp
qed

section \<open>Work partitions: cover and disjointness\<close>

lemma unat_add_nowrap:
  "unat a + unat b < 2 ^ 64 \<Longrightarrow> unat (a + b) = unat a + unat b" for a b :: u64
  using unat_add_lem [of a b] by simp

lemma mpi_crack_loop_visits:
  assumes "0 < unat ws" "unat tot + unat ws \<le> 2 ^ 64"
  shows "\<exists>xs. mpi_crack_loop tot ws i visited = Some (visited @ xs) \<and> distinct xs \<and>
           set xs = {j. i \<le> j \<and> j < tot \<and> unat j mod unat ws = unat i mod unat ws}"
proof (induction "unat tot - unat i" arbitrary: i visited rule: less_induct)
  case less
  show ?case
  proof (cases "i < tot")
    case False
    then have "mpi_crack_loop tot ws i visited = Some (visited @ [])"
      by (subst mpi_crack_loop.simps) simp
    moreover have "{j. i \<le> j \<and> j < tot \<and> unat j mod unat ws = unat i mod unat ws} = {}"
      using False by auto
    ultimately show ?thesis by auto
  next
    case True
    then have lt: "unat i < unat tot" by (simp add: word_less_nat_alt)
    with assms(2) have nw: "unat i + unat ws < 2 ^ 64" by simp
    then have u: "unat (i + ws) = unat i + unat ws" by (rule unat_add_nowrap)
    with lt assms(1) have "unat tot - unat (i + ws) < unat tot - unat i" by simp
    from less [OF this, of "visited @ [i]"] obtain xs where
      xs: "mpi_crack_loop tot ws (i + ws) (visited @ [i]) = Some ((visited @ [i]) @ xs)"
        "distinct xs"
        "set xs = {j. i + ws \<le> j \<and> j < tot \<and> unat j mod unat ws = unat (i + ws) mod unat ws}"
      by blast
    have run: "mpi_crack_loop tot ws i visited = Some (visited @ (i # xs))"
      using True xs(1) by (subst mpi_crack_loop.simps) simp
    have notin: "i \<notin> set xs"
    proof
      assume "i \<in> set xs"
      then have "i + ws \<le> i" using xs(3) by simp
      then have "unat i + unat ws \<le> unat i" by (simp only: word_le_nat_alt u)
      then show False using assms(1) by simp
    qed
    have "set (i # xs) = {j. i \<le> j \<and> j < tot \<and> unat j mod unat ws = unat i mod unat ws}"
    proof (intro equalityI subsetI)
      fix j assume "j \<in> set (i # xs)"
      then consider "j = i" | "j \<in> set xs" by auto
      then show "j \<in> {j. i \<le> j \<and> j < tot \<and> unat j mod unat ws = unat i mod unat ws}"
      proof cases
        case 1
        then show ?thesis using True by simp
      next
        case 2
        then have j: "i + ws \<le> j" "j < tot" "unat j mod unat ws = unat (i + ws) mod unat ws"
          using xs(3) by simp_all
        from j(1) have "unat i + unat ws \<le> unat j" by (simp only: word_le_nat_alt u)
        then have "unat i \<le> unat j" by simp
        moreover have "unat j mod unat ws = unat i mod unat ws" using j(3) by (simp only: u) simp
        ultimately show ?thesis using j(2) by (simp add: word_le_nat_alt)
      qed
    next
      fix j assume "j \<in> {j. i \<le> j \<and> j < tot \<and> unat j mod unat ws = unat i mod unat ws}"
      then have j: "unat i \<le> unat j" "j < tot" "unat j mod unat ws = unat i mod unat ws"
        by (simp_all add: word_le_nat_alt)
      show "j \<in> set (i # xs)"
      proof (cases "j = i")
        case True
        then show ?thesis by simp
      next
        case False
        then have "unat i < unat j" using j(1) by (simp add: word_unat_eq_iff)
        moreover have "unat ws dvd unat j - unat i"
          using j(1,3) by (simp add: mod_eq_dvd_iff_nat)
        ultimately have "unat ws \<le> unat j - unat i" by (intro dvd_imp_le) simp_all
        then have "unat i + unat ws \<le> unat j" using j(1) by simp
        then have "i + ws \<le> j" by (simp only: word_le_nat_alt u)
        moreover have "unat j mod unat ws = unat (i + ws) mod unat ws"
          using j(3) by (simp only: u) simp
        ultimately have "j \<in> set xs" using xs(3) j(2) by simp
        then show ?thesis by simp
      qed
    qed
    with run xs(2) notin show ?thesis by auto
  qed
qed


lemma unat_word_of_int:
  assumes "0 \<le> k" "nat k < 2 ^ 64"
  shows "unat (word_of_int k :: u64) = nat k"
proof -
  have "(word_of_int k :: u64) = word_of_nat (nat k)" using assms(1) by (rule word_of_int_nat)
  then have "unat (word_of_int k :: u64) = nat k mod 2 ^ LENGTH(64)" by (simp only: unat_of_nat)
  then show ?thesis using assms(2) by simp
qed

lemma mpi_crack_indices_eq:
  assumes "1 \<le> world_size" "unat tot + nat world_size \<le> 2 ^ 64" "0 \<le> rank" "rank < world_size"
    and "world_size < 2 ^ 31"
  shows "\<exists>xs. mpi_crack_indices tot rank world_size = Some xs \<and> distinct xs \<and>
           set xs = {j. j < tot \<and> int (unat j) mod world_size = rank}"
proof -
  define ws :: u64 where "ws = word_of_int world_size"
  define i :: u64 where "i = word_of_int rank"
  have w: "nat world_size < 2 ^ 64"
  proof -
    have "nat world_size < 2 ^ 31" using assms(1,5) by simp
    also have "\<dots> < (2::nat) ^ 64" by simp
    finally show ?thesis .
  qed
  have ws: "unat ws = nat world_size"
    using assms(1) w by (simp add: ws_def unat_word_of_int)
  have i: "unat i = nat rank"
    using assms(3,4) w by (simp add: i_def unat_word_of_int)
  from mpi_crack_loop_visits [of ws tot i "[]"] ws assms(1,2)
  obtain xs where xs: "mpi_crack_loop tot ws i [] = Some xs" "distinct xs"
    "set xs = {j. i \<le> j \<and> j < tot \<and> unat j mod unat ws = unat i mod unat ws}"
    by auto
  have "set xs = {j. j < tot \<and> int (unat j) mod world_size = rank}"
  proof -
    have "(i \<le> j \<and> unat j mod unat ws = unat i mod unat ws) =
          (int (unat j) mod world_size = rank)" for j
    proof -
      have r: "nat rank mod nat world_size = nat rank" using assms(3,4) by simp
      have "int (unat j mod nat world_size) = int (unat j) mod world_size"
        using assms(1) by (simp add: zmod_int)
      then have e: "(unat j mod nat world_size = nat rank) = (int (unat j) mod world_size = rank)"
        using assms(3) by (metis int_nat_eq nat_int)
      have "unat j mod nat world_size = nat rank \<Longrightarrow> nat rank \<le> unat j"
        by (metis mod_less_eq_dividend)
      then show ?thesis using e by (auto simp: word_le_nat_alt ws i r)
    qed
    with xs(3) show ?thesis by auto
  qed
  with xs(1,2) show ?thesis by (auto simp: mpi_crack_indices_def ws_def i_def)
qed

lemma crack_password_kernel_loop_set:
  assumes "unat my_start + unat ppt \<le> 2 ^ 64"
  shows "distinct (crack_password_kernel_loop my_start ppt tot i) \<and>
         set (crack_password_kernel_loop my_start ppt tot i) =
           {j. unat my_start + unat i \<le> unat j \<and> unat j < unat my_start + unat ppt \<and> j < tot}"
  using assms
proof (induction my_start ppt tot i rule: crack_password_kernel_loop.induct)
  case (1 my_start ppt tot i)
  show ?case
  proof (cases "i < ppt")
    case False
    then have "unat ppt \<le> unat i" by (simp add: word_less_nat_alt)
    then have "{j. unat my_start + unat i \<le> unat j \<and> unat j < unat my_start + unat ppt \<and> j < tot} = {}"
      by auto
    then show ?thesis using False by (subst (1 2) crack_password_kernel_loop.simps) simp
  next
    case True
    then have lt: "unat i < unat ppt" by (simp add: word_less_nat_alt)
    with "1.prems" have "unat my_start + unat i < 2 ^ 64" by simp
    then have c: "unat (my_start + i) = unat my_start + unat i" by (rule unat_add_nowrap)
    have "unat ppt < 2 ^ 64" using unsigned_less [of ppt] by simp
    with lt have "unat i + unat (1 :: u64) < 2 ^ 64" by simp
    then have "unat (i + 1) = unat i + unat (1 :: u64)" by (rule unat_add_nowrap)
    then have s: "unat (i + 1) = Suc (unat i)" by simp
    show ?thesis
    proof (cases "my_start + i \<ge> tot")
      case ge: True
      have "{j. unat my_start + unat i \<le> unat j \<and> unat j < unat my_start + unat ppt \<and> j < tot} = {}"
      proof -
        have "\<not> (unat my_start + unat i \<le> unat j \<and> j < tot)" for j
          using ge c by (auto simp: word_le_nat_alt word_less_nat_alt)
        then show ?thesis by blast
      qed
      then show ?thesis using True ge by (subst (1 2) crack_password_kernel_loop.simps) simp
    next
      case lt_tot: False
      let ?rest = "crack_password_kernel_loop my_start ppt tot (i + 1)"
      from "1.IH" [OF True refl lt_tot "1.prems"]
      have ih: "distinct ?rest"
        "set ?rest = {j. unat my_start + Suc (unat i) \<le> unat j \<and>
                         unat j < unat my_start + unat ppt \<and> j < tot}"
        by (simp_all only: s)
      have run: "crack_password_kernel_loop my_start ppt tot i = (my_start + i) # ?rest"
        using True lt_tot by (subst crack_password_kernel_loop.simps) (simp add: Let_def)
      have notin: "my_start + i \<notin> set ?rest" using ih(2) c by simp
      have "set ((my_start + i) # ?rest) =
          {j. unat my_start + unat i \<le> unat j \<and> unat j < unat my_start + unat ppt \<and> j < tot}"
      proof (intro equalityI subsetI)
        fix j assume "j \<in> set ((my_start + i) # ?rest)"
        then consider "j = my_start + i" | "j \<in> set ?rest" by auto
        then show "j \<in> {j. unat my_start + unat i \<le> unat j \<and>
                          unat j < unat my_start + unat ppt \<and> j < tot}"
        proof cases
          case 1
          then show ?thesis using c lt lt_tot by simp
        next
          case 2
          then show ?thesis using ih(2) by simp
        qed
      next
        fix j assume j: "j \<in> {j. unat my_start + unat i \<le> unat j \<and>
                          unat j < unat my_start + unat ppt \<and> j < tot}"
        show "j \<in> set ((my_start + i) # ?rest)"
        proof (cases "unat j = unat my_start + unat i")
          case True
          then have "j = my_start + i" using c by (simp add: word_unat_eq_iff)
          then show ?thesis by simp
        next
          case False
          with j have "j \<in> set ?rest" using ih(2) by simp
          then show ?thesis by simp
        qed
      qed
      with run ih(1) notin show ?thesis by simp
    qed
  qed
qed


lemma unat_mult_nowrap:
  "unat a * unat b < 2 ^ 64 \<Longrightarrow> unat (a * b) = unat a * unat b" for a b :: u64
  using unat_mult_lem [of a b] by simp

lemma crack_password_kernel_indices_set:
  assumes "(unat t + 1) * unat ppt \<le> 2 ^ 64"
  shows "distinct (crack_password_kernel_indices 0 ppt tot t) \<and>
         set (crack_password_kernel_indices 0 ppt tot t) =
           {j. unat t * unat ppt \<le> unat j \<and> unat j < (unat t + 1) * unat ppt \<and> j < tot}"
proof -
  have "unat t * unat ppt < 2 ^ 64"
  proof (cases "unat ppt = 0")
    case True
    then show ?thesis by simp
  next
    case False
    then have "unat t * unat ppt < (unat t + 1) * unat ppt" by simp
    with assms show ?thesis by simp
  qed
  then have m: "unat (t * ppt) = unat t * unat ppt" by (rule unat_mult_nowrap)
  have b: "unat (t * ppt) + unat ppt = (unat t + 1) * unat ppt" by (simp add: m)
  show ?thesis
  proof (cases "t * ppt \<ge> tot")
    case True
    have "\<not> (unat t * unat ppt \<le> unat j \<and> j < tot)" for j
      using True m by (auto simp: word_le_nat_alt word_less_nat_alt)
    then have "{j. unat t * unat ppt \<le> unat j \<and> unat j < (unat t + 1) * unat ppt \<and> j < tot} = {}"
      by blast
    then show ?thesis using True by (simp add: crack_password_kernel_indices_def)
  next
    case False
    have "unat (t * ppt) + unat ppt \<le> 2 ^ 64" using assms b by simp
    from crack_password_kernel_loop_set [OF this, of tot 0] False
    show ?thesis by (simp add: crack_password_kernel_indices_def m add.commute)
  qed
qed

lemma cuda_owns_iff:
  assumes "n_threads * unat ppt \<le> 2 ^ 64" "unat t < n_threads"
  shows "cuda_owns tot ppt t j =
           (unat t * unat ppt \<le> unat j \<and> unat j < (unat t + 1) * unat ppt \<and> j < tot)"
proof -
  have "(unat t + 1) * unat ppt \<le> n_threads * unat ppt"
    using assms(2) by (intro mult_right_mono) simp_all
  with assms(1) have "(unat t + 1) * unat ppt \<le> 2 ^ 64" by simp
  from crack_password_kernel_indices_set [OF this, of tot]
  show ?thesis by (simp add: cuda_owns_def)
qed

lemma block_unique:
  fixes a b j p :: nat
  assumes "a * p \<le> j" "j < (a + 1) * p" "b * p \<le> j" "j < (b + 1) * p"
  shows "a = b"
proof -
  have p: "0 < p" using assms(1,2) by (cases p) simp_all
  have "j div p = a" using assms(1,2) p
    by (metis add.commute div_nat_eqI mult.commute plus_1_eq_Suc)
  moreover have "j div p = b" using assms(3,4) p
    by (metis add.commute div_nat_eqI mult.commute plus_1_eq_Suc)
  ultimately show ?thesis by simp
qed

lemma cuda_cover:
  assumes "n_threads * unat ppt \<le> 2 ^ 64"
  shows "(\<exists>t. unat t < n_threads \<and> cuda_owns tot ppt t j) = (j < tot \<and> unat j < n_threads * unat ppt)"
proof
  assume "\<exists>t. unat t < n_threads \<and> cuda_owns tot ppt t j"
  then obtain t where t: "unat t < n_threads" "cuda_owns tot ppt t j" by blast
  then have j: "unat j < (unat t + 1) * unat ppt" "j < tot"
    using cuda_owns_iff [OF assms t(1), of tot j] by simp_all
  have "(unat t + 1) * unat ppt \<le> n_threads * unat ppt"
    using t(1) by (intro mult_right_mono) simp_all
  with j show "j < tot \<and> unat j < n_threads * unat ppt" by simp
next
  assume j: "j < tot \<and> unat j < n_threads * unat ppt"
  then have p: "0 < unat ppt" by (cases "unat ppt") simp_all
  define a where "a = unat j div unat ppt"
  have a: "a < n_threads" using j p by (simp add: a_def less_mult_imp_div_less)
  have "a \<le> unat j" by (simp add: a_def)
  also have "\<dots> < 2 ^ 64" using unsigned_less [of j] by simp
  finally have ua: "unat (word_of_nat a :: u64) = a" by (simp add: unat_of_nat)
  have "a * unat ppt \<le> unat j" by (simp add: a_def)
  moreover have "unat j < (a + 1) * unat ppt"
    using p by (simp add: a_def dividend_less_div_times)
  ultimately have "cuda_owns tot ppt (word_of_nat a) j"
    using cuda_owns_iff [OF assms, of "word_of_nat a" tot j] a ua j by simp
  moreover have "unat (word_of_nat a :: u64) < n_threads" using a ua by simp
  ultimately show "\<exists>t. unat t < n_threads \<and> cuda_owns tot ppt t j" by blast
qed

lemma cuda_disjoint:
  assumes "n_threads * unat ppt \<le> 2 ^ 64" "unat t < n_threads" "unat t' < n_threads"
    and "cuda_owns tot ppt t j" "cuda_owns tot ppt t' j"
  shows "t = t'"
proof -
  from assms(4) have 1: "unat t * unat ppt \<le> unat j" "unat j < (unat t + 1) * unat ppt"
    using cuda_owns_iff [OF assms(1,2), of tot j] by simp_all
  from assms(5) have 2: "unat t' * unat ppt \<le> unat j" "unat j < (unat t' + 1) * unat ppt"
    using cuda_owns_iff [OF assms(1,3), of tot j] by simp_all
  from block_unique [OF 1 2] show ?thesis by (simp add: word_unat_eq_iff)
qed

lemma mpi_owns_iff:
  assumes "1 \<le> world_size" "world_size < 2 ^ 31" "unat tot + nat world_size \<le> 2 ^ 64"
    and "0 \<le> rank" "rank < world_size"
  shows "mpi_owns tot world_size rank j = (j < tot \<and> int (unat j) mod world_size = rank)"
proof -
  from mpi_crack_indices_eq [OF assms(1,3,4,5,2)] obtain xs where
    "mpi_crack_indices tot rank world_size = Some xs"
    "set xs = {j. j < tot \<and> int (unat j) mod world_size = rank}" by blast
  then show ?thesis by (simp add: mpi_owns_def)
qed


lemma mpi_cover:
  assumes "1 \<le> world_size" "world_size < 2 ^ 31" "unat tot + nat world_size \<le> 2 ^ 64"
  shows "(\<exists>rank. 0 \<le> rank \<and> rank < world_size \<and> mpi_owns tot world_size rank j) = (j < tot)"
proof
  assume "\<exists>rank. 0 \<le> rank \<and> rank < world_size \<and> mpi_owns tot world_size rank j"
  then obtain rank where "0 \<le> rank" "rank < world_size" "mpi_owns tot world_size rank j" by blast
  then show "j < tot" using mpi_owns_iff [OF assms, of rank j] by simp
next
  assume j: "j < tot"
  define rank where "rank = int (unat j) mod world_size"
  have r: "0 \<le> rank" "rank < world_size" using assms(1) by (simp_all add: rank_def)
  then have "mpi_owns tot world_size rank j"
    using mpi_owns_iff [OF assms, of rank j] j by (simp add: rank_def)
  with r show "\<exists>rank. 0 \<le> rank \<and> rank < world_size \<and> mpi_owns tot world_size rank j" by blast
qed

lemma mpi_disjoint:
  assumes "1 \<le> world_size" "world_size < 2 ^ 31" "unat tot + nat world_size \<le> 2 ^ 64"
    and "0 \<le> r" "r < world_size" "0 \<le> r'" "r' < world_size"
    and "mpi_owns tot world_size r j" "mpi_owns tot world_size r' j"
  shows "r = r'"
  using mpi_owns_iff [OF assms(1,2,3,4,5), of j] mpi_owns_iff [OF assms(1,2,3,6,7), of j] assms(8,9)
  by simp

lemma mpi_terminates:
  assumes "1 \<le> world_size" "world_size < 2 ^ 31" "unat tot + nat world_size \<le> 2 ^ 64"
    and "0 \<le> rank" "rank < world_size"
  shows "mpi_crack_indices tot rank world_size \<noteq> None"
  using mpi_crack_indices_eq [OF assms(1,3,4,5,2)] by auto


lemma unat_thread_id:
  assumes "unat b * unat d + unat x < 2 ^ 32"
  shows "unat (thread_id b d x) = unat b * unat d + unat x"
proof -
  have "unat b * unat d < 2 ^ LENGTH(32)" using assms by simp
  then have m: "unat (b * d) = unat b * unat d" by (simp only: unat_mult_lem)
  with assms have "unat (b * d) + unat x < 2 ^ LENGTH(32)" by simp
  then have "unat (b * d + x) = unat (b * d) + unat x" by (simp only: unat_add_lem)
  with m have s: "unat (b * d + x) = unat b * unat d + unat x" by simp
  have "unat (b * d + x) < 2 ^ 32" using unsigned_less [of "b * d + x"] by simp
  also have "\<dots> < (2::nat) ^ 64" by simp
  finally have "take_bit 64 (unat (b * d + x)) = unat (b * d + x)"
    by (simp only: take_bit_nat_eq_self)
  then have "unat (ucast (b * d + x) :: u64) = unat (b * d + x)"
    by (simp add: unsigned_ucast_eq)
  with s show ?thesis by (simp add: thread_id_def)
qed

lemma calculate_combinations_no_wrap:
  assumes "len \<le> 13" "world_size < 2 ^ 31"
  shows "unat (calculate_combinations len) + nat world_size \<le> 2 ^ 64"
proof -
  have "(26::nat) ^ nat len \<le> 26 ^ 13" using assms(1) by (intro power_increasing) simp_all
  moreover have "(26::nat) ^ 13 < 2 ^ 62" by simp
  ultimately have "unat (calculate_combinations len) < 2 ^ 62"
    by (simp add: unat_calculate_combinations)
  moreover have "nat world_size < 2 ^ 31" using assms(2) by (cases "0 \<le> world_size") simp_all
  ultimately show ?thesis by simp
qed

text \<open>
  The threads of a grid have distinct numbers, and the numbers are those below
  \<open>gridDim.x * blockDim.x\<close>, as long as this product does not exceed \<open>2 ^ 32\<close>:
  the number is computed in 32 bits.
\<close>

lemma grid_thread_id:
  fixes g d b x :: "32 word"
  assumes "unat g * unat d \<le> 2 ^ 32" "b < g" "x < d"
  shows "unat (thread_id b d x) = unat b * unat d + unat x"
    and "unat (thread_id b d x) < unat g * unat d"
proof -
  have b: "unat b < unat g" and x: "unat x < unat d"
    using assms(2,3) by (simp_all add: word_less_nat_alt)
  have "unat b * unat d + unat x < (unat b + 1) * unat d" using x by simp
  also have "\<dots> \<le> unat g * unat d" using b by (intro mult_right_mono) simp_all
  finally have lt: "unat b * unat d + unat x < unat g * unat d" .
  with assms(1) have "unat b * unat d + unat x < 2 ^ 32" by simp
  then show "unat (thread_id b d x) = unat b * unat d + unat x" by (rule unat_thread_id)
  with lt show "unat (thread_id b d x) < unat g * unat d" by simp
qed

lemma grid_thread_id_inj:
  fixes g d b x b' x' :: "32 word"
  assumes "unat g * unat d \<le> 2 ^ 32" "b < g" "x < d" "b' < g" "x' < d"
    and "thread_id b d x = thread_id b' d x'"
  shows "b = b' \<and> x = x'"
proof -
  have x: "unat x < unat d" and x': "unat x' < unat d"
    using assms(3,5) by (simp_all add: word_less_nat_alt)
  have e: "unat b * unat d + unat x = unat b' * unat d + unat x'"
    using grid_thread_id(1) [OF assms(1,2,3)] grid_thread_id(1) [OF assms(1,4,5)] assms(6)
    by simp
  have "(unat b * unat d + unat x) div unat d = unat b" using x by simp
  moreover have "(unat b' * unat d + unat x') div unat d = unat b'" using x' by simp
  ultimately have bb: "unat b = unat b'" using e by simp
  with e have "unat x = unat x'" by simp
  with bb show ?thesis by (simp add: word_unat_eq_iff)
qed

lemma grid_thread_id_surj:
  fixes g d :: "32 word" and t :: u64
  assumes "unat g * unat d \<le> 2 ^ 32" "unat t < unat g * unat d"
  shows "\<exists>b x. b < g \<and> x < d \<and> thread_id b d x = t"
proof -
  have d: "0 < unat d" using assms(2) by (cases "unat d") simp_all
  define b :: "32 word" where "b = word_of_nat (unat t div unat d)"
  define x :: "32 word" where "x = word_of_nat (unat t mod unat d)"
  have bl: "unat t div unat d < unat g"
    using assms(2) d by (simp add: less_mult_imp_div_less)
  have "unat g < 2 ^ 32" using unsigned_less [of g] by simp
  with bl have ub: "unat b = unat t div unat d" by (simp add: b_def unat_of_nat)
  have xl: "unat t mod unat d < unat d" using d by simp
  have "unat d < 2 ^ 32" using unsigned_less [of d] by simp
  with xl have ux: "unat x = unat t mod unat d" by (simp add: x_def unat_of_nat)
  have b: "b < g" using bl ub by (simp add: word_less_nat_alt)
  have x: "x < d" using xl ux by (simp add: word_less_nat_alt)
  have "unat (thread_id b d x) = unat t"
    using grid_thread_id(1) [OF assms(1) b x] ub ux by simp
  then have "thread_id b d x = t" by (simp add: word_unat_eq_iff)
  with b x show ?thesis by blast
qed

lemma cuda_grid_cover:
  fixes g d :: "32 word"
  assumes "unat g * unat d \<le> 2 ^ 32" "unat g * unat d * unat ppt \<le> 2 ^ 64"
  shows "(\<exists>b x. b < g \<and> x < d \<and> cuda_thread_owns tot ppt d b x j) =
         (j < tot \<and> unat j < unat g * unat d * unat ppt)"
proof -
  have "(\<exists>b x. b < g \<and> x < d \<and> cuda_thread_owns tot ppt d b x j) =
        (\<exists>t. unat t < unat g * unat d \<and> cuda_owns tot ppt t j)"
  proof
    assume "\<exists>b x. b < g \<and> x < d \<and> cuda_thread_owns tot ppt d b x j"
    then obtain b x where "b < g" "x < d" "cuda_owns tot ppt (thread_id b d x) j"
      by (auto simp: cuda_thread_owns_def)
    with grid_thread_id(2) [OF assms(1), of b x]
    show "\<exists>t. unat t < unat g * unat d \<and> cuda_owns tot ppt t j" by blast
  next
    assume "\<exists>t. unat t < unat g * unat d \<and> cuda_owns tot ppt t j"
    then obtain t where t: "unat t < unat g * unat d" "cuda_owns tot ppt t j" by blast
    from grid_thread_id_surj [OF assms(1) t(1)] t(2)
    show "\<exists>b x. b < g \<and> x < d \<and> cuda_thread_owns tot ppt d b x j"
      by (auto simp: cuda_thread_owns_def)
  qed
  then show ?thesis using cuda_cover [OF assms(2), of tot j] by simp
qed

lemma cuda_grid_disjoint:
  fixes g d :: "32 word"
  assumes "unat g * unat d \<le> 2 ^ 32" "unat g * unat d * unat ppt \<le> 2 ^ 64"
    and "b < g" "x < d" "b' < g" "x' < d"
    and "cuda_thread_owns tot ppt d b x j" "cuda_thread_owns tot ppt d b' x' j"
  shows "b = b' \<and> x = x'"
proof -
  have "thread_id b d x = thread_id b' d x'"
    using cuda_disjoint [OF assms(2) grid_thread_id(2) [OF assms(1,3,4)]
        grid_thread_id(2) [OF assms(1,5,6)], of tot j] assms(7,8)
    by (simp add: cuda_thread_owns_def)
  then show ?thesis by (rule grid_thread_id_inj [OF assms(1,3,4,5,6)])
qed

lemma cuda_grid_owns_iff:
  fixes g d :: "32 word"
  assumes "unat g * unat d \<le> 2 ^ 32" "unat g * unat d * unat ppt \<le> 2 ^ 64" "b < g" "x < d"
  shows "cuda_thread_owns tot ppt d b x j =
           ((unat b * unat d + unat x) * unat ppt \<le> unat j \<and>
            unat j < (unat b * unat d + unat x + 1) * unat ppt \<and> j < tot)"
  using cuda_owns_iff [OF assms(2) grid_thread_id(2) [OF assms(1,3,4)], of tot j]
    grid_thread_id(1) [OF assms(1,3,4)]
  by (simp add: cuda_thread_owns_def)

text \<open>
  The partitions where no number wraps. Strided (MPI): for every size and every
  \<open>world_size\<close> from 1 on for which \<open>size + world_size\<close> does not exceed
  \<open>2 ^ 64\<close> (true of every size \<open>26 ^ length\<close> with length up to 13, lemma
  \<open>calculate_combinations_no_wrap\<close>), every rank's loop ends, rank \<open>w\<close> owns the
  indices below the size that are congruent to \<open>w\<close> modulo \<open>world_size\<close>, every
  index below the size is owned by some rank and no index by two. Contiguous (CUDA
  kernel, a grid of \<open>blocks\<close> blocks of \<open>threads_per_block\<close> threads,
  \<open>n = blocks * threads_per_block\<close> at most \<open>2 ^ 32\<close> and
  \<open>n * passwords_per_thread\<close> at most \<open>2 ^ 64\<close>): thread number \<open>t\<close> owns the
  indices from \<open>t * passwords_per_thread\<close> up to, not including,
  \<open>(t + 1) * passwords_per_thread\<close> that are below the size, no index is owned by two
  threads, and the indices owned are those below both the size and
  \<open>n * passwords_per_thread\<close>.
\<close>

theorem partitions_cover_disjoint:
  fixes blocks threads_per_block :: "32 word"
  assumes "1 \<le> world_size" "world_size < 2 ^ 31" "unat tot + nat world_size \<le> 2 ^ 64"
    and "unat blocks * unat threads_per_block \<le> 2 ^ 32"
    and "unat blocks * unat threads_per_block * unat ppt \<le> 2 ^ 64"
  shows "(\<forall>rank. 0 \<le> rank \<and> rank < world_size \<longrightarrow> mpi_crack_indices tot rank world_size \<noteq> None) \<and>
         (\<forall>rank j. 0 \<le> rank \<and> rank < world_size \<longrightarrow>
             mpi_owns tot world_size rank j = (j < tot \<and> int (unat j) mod world_size = rank)) \<and>
         (\<forall>j. (\<exists>rank. 0 \<le> rank \<and> rank < world_size \<and> mpi_owns tot world_size rank j) = (j < tot)) \<and>
         (\<forall>j r r'. 0 \<le> r \<and> r < world_size \<and> 0 \<le> r' \<and> r' < world_size \<and>
             mpi_owns tot world_size r j \<and> mpi_owns tot world_size r' j \<longrightarrow> r = r') \<and>
         (\<forall>b x j. b < blocks \<and> x < threads_per_block \<longrightarrow>
             cuda_thread_owns tot ppt threads_per_block b x j =
               ((unat b * unat threads_per_block + unat x) * unat ppt \<le> unat j \<and>
                unat j < (unat b * unat threads_per_block + unat x + 1) * unat ppt \<and> j < tot)) \<and>
         (\<forall>j. (\<exists>b x. b < blocks \<and> x < threads_per_block \<and>
                   cuda_thread_owns tot ppt threads_per_block b x j) =
               (j < tot \<and> unat j < unat blocks * unat threads_per_block * unat ppt)) \<and>
         (\<forall>j b x b' x'. b < blocks \<and> x < threads_per_block \<and> b' < blocks \<and> x' < threads_per_block \<and>
             cuda_thread_owns tot ppt threads_per_block b x j \<and>
             cuda_thread_owns tot ppt threads_per_block b' x' j \<longrightarrow> b = b' \<and> x = x')"
proof (intro conjI allI impI)
  fix rank assume "0 \<le> rank \<and> rank < world_size"
  then show "mpi_crack_indices tot rank world_size \<noteq> None"
    using mpi_terminates [OF assms(1,2,3)] by blast
next
  fix rank j assume "0 \<le> rank \<and> rank < world_size"
  then show "mpi_owns tot world_size rank j = (j < tot \<and> int (unat j) mod world_size = rank)"
    using mpi_owns_iff [OF assms(1,2,3)] by blast
next
  fix j
  show "(\<exists>rank. 0 \<le> rank \<and> rank < world_size \<and> mpi_owns tot world_size rank j) = (j < tot)"
    by (rule mpi_cover [OF assms(1,2,3)])
next
  fix j r r'
  assume "0 \<le> r \<and> r < world_size \<and> 0 \<le> r' \<and> r' < world_size \<and>
          mpi_owns tot world_size r j \<and> mpi_owns tot world_size r' j"
  then show "r = r'" using mpi_disjoint [OF assms(1,2,3)] by blast
next
  fix b x j assume "b < blocks \<and> x < threads_per_block"
  then show "cuda_thread_owns tot ppt threads_per_block b x j =
               ((unat b * unat threads_per_block + unat x) * unat ppt \<le> unat j \<and>
                unat j < (unat b * unat threads_per_block + unat x + 1) * unat ppt \<and> j < tot)"
    using cuda_grid_owns_iff [OF assms(4,5)] by blast
next
  fix j
  show "(\<exists>b x. b < blocks \<and> x < threads_per_block \<and>
            cuda_thread_owns tot ppt threads_per_block b x j) =
        (j < tot \<and> unat j < unat blocks * unat threads_per_block * unat ppt)"
    by (rule cuda_grid_cover [OF assms(4,5)])
next
  fix j b x b' x'
  assume a: "b < blocks \<and> x < threads_per_block \<and> b' < blocks \<and> x' < threads_per_block \<and>
          cuda_thread_owns tot ppt threads_per_block b x j \<and>
          cuda_thread_owns tot ppt threads_per_block b' x' j"
  then have "b = b' \<and> x = x'" using cuda_grid_disjoint [OF assms(4,5)] by blast
  then show "b = b'" "x = x'" by simp_all
qed

theorem partitions_cover_disjoint_witness:
  "(1::int) \<le> 3 \<and> (3::int) < 2 ^ 31 \<and> unat (26 :: u64) + nat 3 \<le> 2 ^ 64 \<and>
   unat (2 :: 32 word) * unat (4 :: 32 word) \<le> 2 ^ 32 \<and>
   unat (2 :: 32 word) * unat (4 :: 32 word) * unat (4 :: u64) \<le> 2 ^ 64 \<and>
   (\<forall>j. (\<exists>rank. 0 \<le> rank \<and> rank < 3 \<and> mpi_owns 26 3 rank j) = (j < 26)) \<and>
   (\<forall>j. (\<exists>b x. b < 2 \<and> x < 4 \<and> cuda_thread_owns 26 4 4 b x j) =
         (j < 26 \<and> unat j < unat (2 :: 32 word) * unat (4 :: 32 word) * unat (4 :: u64))) \<and>
   mpi_crack_indices 26 1 3 = Some [1, 4, 7, 10, 13, 16, 19, 22, 25] \<and>
   crack_password_kernel_indices 0 4 26 (thread_id 1 4 2) = [24, 25]"
proof -
  have h: "(1::int) \<le> 3" "(3::int) < 2 ^ 31" "unat (26 :: u64) + nat 3 \<le> 2 ^ 64"
    "unat (2 :: 32 word) * unat (4 :: 32 word) \<le> 2 ^ 32"
    "unat (2 :: 32 word) * unat (4 :: 32 word) * unat (4 :: u64) \<le> 2 ^ 64" by simp_all
  have "mpi_crack_indices 26 1 3 = Some [1, 4, 7, 10, 13, 16, 19, 22, 25]"
    "crack_password_kernel_indices 0 4 26 (thread_id 1 4 2) = [24, 25]"
    by (simp add: mpi_crack_indices_def mpi_crack_loop.simps, code_simp)
  with h partitions_cover_disjoint [OF h] show ?thesis by simp
qed

text \<open>
  A grid given on the command line can be too small for the size. A grid of one block of
  one thread (\<open>threads_per_block = 1\<close>, \<open>num_blocks = 1\<close>) with the program's 100
  passwords per thread owns the indices 0 to 99 only: index 100 of the 676 indices of
  length 2 belongs to no thread.
\<close>

theorem contiguous_partition_gap_counterexample:
  "(100 :: u64) < calculate_combinations 2 \<and>
   \<not> (\<exists>b x. b < 1 \<and> x < 1 \<and> cuda_thread_owns (calculate_combinations 2) 100 1 b x 100)"
proof -
  have "(100 :: u64) < calculate_combinations 2" by (simp add: calculate_combinations_eq)
  moreover have "\<not> cuda_thread_owns (calculate_combinations 2) 100 1 0 0 100"
    using cuda_grid_owns_iff [of 1 1 100 0 0 "calculate_combinations 2" 100] by simp
  ultimately show ?thesis by simp
qed

section \<open>Work partitions: the grid the CUDA program launches\<close>

text \<open>
  A thread's number is below \<open>2 ^ 32\<close> whatever the grid, so no thread owns an index
  from \<open>2 ^ 32 * passwords_per_thread\<close> on.
\<close>

lemma unat_thread_id_less: "unat (thread_id b d x) < 2 ^ 32"
proof -
  have "unat (b * d + x) < 2 ^ 32" using unsigned_less [of "b * d + x"] by simp
  moreover have "(2::nat) ^ 32 < 2 ^ 64" by simp
  ultimately have "unat (b * d + x) < 2 ^ 64" by (rule less_trans)
  then have "take_bit 64 (unat (b * d + x)) = unat (b * d + x)"
    by (simp only: take_bit_nat_eq_self)
  then have "unat (ucast (b * d + x) :: u64) = unat (b * d + x)"
    by (simp add: unsigned_ucast_eq)
  then show ?thesis
    using unsigned_less [of "b * d + x"] by (simp add: thread_id_def)
qed

lemma cuda_no_owner_beyond_32_bits:
  assumes "2 ^ 32 * unat ppt \<le> unat j" "unat ppt \<le> 2 ^ 32"
  shows "\<not> cuda_thread_owns tot ppt d b x j"
proof
  assume "cuda_thread_owns tot ppt d b x j"
  then have o: "cuda_owns tot ppt (thread_id b d x) j" by (simp add: cuda_thread_owns_def)
  have "(2::nat) ^ 32 * unat ppt \<le> 2 ^ 32 * 2 ^ 32" using assms(2) by (intro mult_left_mono) simp_all
  then have n: "(2::nat) ^ 32 * unat ppt \<le> 2 ^ 64" by simp
  from cuda_cover [OF n, of tot j] o unat_thread_id_less [of b d x]
  have "unat j < 2 ^ 32 * unat ppt" by blast
  with assms(1) show False by simp
qed

text \<open>
  Claim C4 fails in the CUDA program at the grid it computes itself. For a password of
  9 letters, which \<open>main\<close> accepts, and the default 256 threads per block,
  \<open>crack_password_cuda\<close> launches 212089988 blocks: more than \<open>2 ^ 32\<close> threads.
  The thread number \<open>blockIdx.x * blockDim.x + threadIdx.x\<close> is computed in 32 bits
  and wraps: thread 0 of block 16777216 has the number of thread 0 of block 0, and both
  own index 0; index 429496729600, which is below the size \<open>26 ^ 9\<close>, and the index
  of \<open>zzzzzzzzz\<close> are owned by no thread of the grid. The partitions are neither
  disjoint nor a cover of the indices below the size.
\<close>

theorem cuda_thread_id_wraps:
  "crack_password_cuda_blocks (calculate_combinations 9) 256 0 = Some 212089988 \<and>
   (16777216 :: 32 word) < 212089988 \<and>
   thread_id 16777216 256 0 = thread_id 0 256 0 \<and>
   cuda_thread_owns (calculate_combinations 9) 100 256 0 0 0 \<and>
   cuda_thread_owns (calculate_combinations 9) 100 256 16777216 0 0 \<and>
   429496729600 < calculate_combinations 9 \<and>
   \<not> (\<exists>b x. cuda_thread_owns (calculate_combinations 9) 100 256 b x 429496729600) \<and>
   5429503678975 < calculate_combinations 9 \<and>
   candidate 5429503678975 9 = ''zzzzzzzzz'' \<and>
   \<not> (\<exists>b x. cuda_thread_owns (calculate_combinations 9) 100 256 b x 5429503678975)"
proof -
  have c: "calculate_combinations 9 = 5429503678976" by (simp add: calculate_combinations_eq)
  have blocks: "crack_password_cuda_blocks (calculate_combinations 9) 256 0 = Some 212089988"
    by (simp add: c crack_password_cuda_blocks_def)
  have t: "thread_id 16777216 256 0 = thread_id 0 256 0" by (simp add: thread_id_def)
  have t0: "thread_id 0 256 0 = 0" by (simp add: thread_id_def)
  have o: "cuda_owns (calculate_combinations 9) 100 0 0"
    using cuda_owns_iff [of 1 100 0 "calculate_combinations 9" 0] by (simp add: c)
  have own0: "cuda_thread_owns (calculate_combinations 9) 100 256 0 0 0"
    using o by (simp add: cuda_thread_owns_def t0)
  have own1: "cuda_thread_owns (calculate_combinations 9) 100 256 16777216 0 0"
    using o by (simp add: cuda_thread_owns_def t t0)
  have none: "\<not> (\<exists>b x. cuda_thread_owns (calculate_combinations 9) 100 256 b x 429496729600)"
    using cuda_no_owner_beyond_32_bits [of 100 429496729600 "calculate_combinations 9" 256] by simp
  have none_z: "\<not> (\<exists>b x. cuda_thread_owns (calculate_combinations 9) 100 256 b x 5429503678975)"
    using cuda_no_owner_beyond_32_bits [of 100 5429503678975 "calculate_combinations 9" 256] by simp
  have z: "candidate 5429503678975 9 = ''zzzzzzzzz''" by code_simp
  have "(429496729600 :: u64) < calculate_combinations 9"
    "(5429503678975 :: u64) < calculate_combinations 9" by (simp_all add: c)
  with blocks t own0 own1 none none_z z show ?thesis by simp
qed

section \<open>Progress aggregation: what a round computes\<close>

lemma collect_progress_loop_eq:
  "collect_progress_loop p world_size pending total_progress =
     (total_progress + (\<Sum>q \<in> {p..<world_size}. oldest_report (pending q)),
      (\<lambda>q. if p \<le> q \<and> q < world_size then tl (pending q) else pending q))"
proof (induction p world_size pending total_progress rule: collect_progress_loop.induct)
  case (1 p world_size pending total_progress)
  show ?case
  proof (cases "p < world_size")
    case False
    then have "(\<lambda>q. if p \<le> q \<and> q < world_size then tl (pending q) else pending q) = pending"
      by (intro ext) auto
    with False show ?thesis by (subst collect_progress_loop.simps) simp
  next
    case True
    then have split: "{p..<world_size} = insert p {p + 1..<world_size}" by auto
    have sum: "(\<Sum>q \<in> {p..<world_size}. f q) = f p + (\<Sum>q \<in> {p + 1..<world_size}. f q)"
      for f :: "int \<Rightarrow> u64"
      by (simp only: split) simp
    show ?thesis
    proof (cases "pending p")
      case Nil
      have "collect_progress_loop p world_size pending total_progress =
            collect_progress_loop (p + 1) world_size pending total_progress"
        using True Nil by (subst collect_progress_loop.simps) simp
      also have "\<dots> = (total_progress + (\<Sum>q \<in> {p + 1..<world_size}. oldest_report (pending q)),
          (\<lambda>q. if p + 1 \<le> q \<and> q < world_size then tl (pending q) else pending q))"
        using "1.IH"(1) [OF True Nil] .
      also have "\<dots> = (total_progress + (\<Sum>q \<in> {p..<world_size}. oldest_report (pending q)),
          (\<lambda>q. if p \<le> q \<and> q < world_size then tl (pending q) else pending q))"
      proof -
        have "(if p + 1 \<le> q \<and> q < world_size then tl (pending q) else pending q) =
              (if p \<le> q \<and> q < world_size then tl (pending q) else pending q)" for q
          using Nil by (cases "q = p") auto
        then show ?thesis using Nil by (simp add: sum oldest_report_def)
      qed
      finally show ?thesis .
    next
      case (Cons worker_count rest)
      let ?pending = "pending(p := rest)"
      have "collect_progress_loop p world_size pending total_progress =
            collect_progress_loop (p + 1) world_size ?pending (total_progress + worker_count)"
        using True Cons by (subst collect_progress_loop.simps) simp
      also have "\<dots> = (total_progress + worker_count +
            (\<Sum>q \<in> {p + 1..<world_size}. oldest_report (?pending q)),
          (\<lambda>q. if p + 1 \<le> q \<and> q < world_size then tl (?pending q) else ?pending q))"
        using "1.IH"(2) [OF True Cons] .
      also have "\<dots> = (total_progress + (\<Sum>q \<in> {p..<world_size}. oldest_report (pending q)),
          (\<lambda>q. if p \<le> q \<and> q < world_size then tl (pending q) else pending q))"
      proof -
        have "(if p + 1 \<le> q \<and> q < world_size then tl (?pending q) else ?pending q) =
              (if p \<le> q \<and> q < world_size then tl (pending q) else pending q)" for q
          using Cons True by (cases "q = p") auto
        moreover have "(\<Sum>q \<in> {p + 1..<world_size}. oldest_report (?pending q)) =
              (\<Sum>q \<in> {p + 1..<world_size}. oldest_report (pending q))"
          by (intro sum.cong) auto
        ultimately show ?thesis using Cons by (simp add: sum oldest_report_def add.assoc)
      qed
      finally show ?thesis .
    qed
  qed
qed

text \<open>
  Claim C6, as the code has it. Every round starts afresh from rank 0's own counter and
  adds, for each worker rank, the oldest report pending from it, which it removes from
  the mailbox; a worker with no pending report adds 0 in that round, not the count it
  reported before. A report is counted in the one round that receives it, and at most
  one report per worker in a round. Nothing is kept between rounds.
\<close>

theorem collect_progress_round:
  "collect_progress counter world_size pending =
     (counter + (\<Sum>p \<in> {1..<world_size}. oldest_report (pending p)),
      (\<lambda>p. if 1 \<le> p \<and> p < world_size then tl (pending p) else pending p))"
proof -
  have "collect_progress counter world_size pending =
        collect_progress_loop 1 world_size pending counter"
    by (simp add: collect_progress_def)
  also have "\<dots> = (counter + (\<Sum>p \<in> {1..<world_size}. oldest_report (pending p)),
      (\<lambda>p. if 1 \<le> p \<and> p < world_size then tl (pending p) else pending p))"
    by (rule collect_progress_loop_eq)
  finally show ?thesis .
qed

text \<open>
  Claim C6 as stated promises a figure that never decreases and a worker's last known
  count when its report is missing. With three ranks: in the round at \<open>counter = 50000\<close>
  the reports 50000 of ranks 1 and 2 are pending and the figure is 150000; in the next
  round, at \<open>counter = 100000\<close>, no new report has arrived, the two workers add 0 and
  the figure is 100000.
\<close>

theorem collect_progress_decreases_counterexample:
  "fst (collect_progress 50000 3 ((\<lambda>p. [])(1 := [50000], 2 := [50000]))) = 150000 \<and>
   snd (collect_progress 50000 3 ((\<lambda>p. [])(1 := [50000], 2 := [50000]))) 1 = [] \<and>
   snd (collect_progress 50000 3 ((\<lambda>p. [])(1 := [50000], 2 := [50000]))) 2 = [] \<and>
   fst (collect_progress 100000 3
          (snd (collect_progress 50000 3 ((\<lambda>p. [])(1 := [50000], 2 := [50000]))))) = 100000 \<and>
   (100000 :: u64) < 150000"
  by (simp add: collect_progress_def collect_progress_loop.simps)

section \<open>Announcing a match: one winner in the CUDA kernel\<close>

lemma cuda_inv_initial: "cuda_inv cuda_initial"
  by (simp add: cuda_inv_def cuda_initial_def)

lemma cuda_thread_step_inv:
  assumes "cuda_inv (sh, ths)" "cuda_thread_step md5 args t sh (ths t) = (sh', th')"
  shows "cuda_inv (sh', ths(t := th'))"
proof (cases "cu_pc (ths t)")
  case Start
  with assms show ?thesis
    by (auto simp: cuda_inv_def cuda_thread_step_def Let_def split: if_splits)
next
  case Loop
  with assms show ?thesis
    by (auto simp: cuda_inv_def cuda_thread_step_def Let_def split: if_splits sum.splits)
next
  case Cas
  with assms show ?thesis
    by (auto simp: cuda_inv_def cuda_thread_step_def split: if_splits)
next
  case Check
  with assms show ?thesis
    by (auto simp: cuda_inv_def cuda_thread_step_def split: if_splits)
next
  case WriteIndex
  with assms show ?thesis
    by (auto simp: cuda_inv_def cuda_thread_step_def split: if_splits)
next
  case WritePassword
  with assms show ?thesis
    by (auto simp: cuda_inv_def cuda_thread_step_def split: if_splits sum.splits)
next
  case Returned
  with assms show ?thesis
    by (auto simp: cuda_inv_def cuda_thread_step_def)
next
  case Trapped
  with assms show ?thesis
    by (auto simp: cuda_inv_def cuda_thread_step_def)
qed

lemma cuda_run_inv: "cuda_inv s \<Longrightarrow> cuda_inv (cuda_run md5 args schedule s)"
proof (induction schedule arbitrary: s)
  case Nil
  then show ?case by simp
next
  case (Cons t schedule)
  obtain sh ths where s: "s = (sh, ths)" by (cases s)
  obtain sh' th' where st: "cuda_thread_step md5 args t sh (ths t) = (sh', th')"
    by (cases "cuda_thread_step md5 args t sh (ths t)")
  from Cons.prems s st have "cuda_inv (sh', ths(t := th'))"
    by (auto intro: cuda_thread_step_inv)
  from Cons.IH [OF this] show ?case by (simp add: s st)
qed

text \<open>
  In every interleaved execution of the kernel at most one thread changes the flag, and
  every store to \<open>found_at_index\<close> or \<open>result_password\<close> is by that thread.
\<close>

lemma cuda_single_winner:
  "length (transitions (fst (cuda_run md5 args schedule cuda_initial))) \<le> 1 \<and>
   set (writers (fst (cuda_run md5 args schedule cuda_initial))) \<subseteq>
     set (transitions (fst (cuda_run md5 args schedule cuda_initial)))"
  using cuda_run_inv [OF cuda_inv_initial, of md5 args schedule]
  by (auto simp: cuda_inv_def split: prod.splits)

text \<open>
  An execution in which two threads match at once (a fingerprint under which every
  candidate matches; two threads with 13 indices each at length 1): thread 1 wins the
  exchange and stores index 13 and its candidate, thread 0 reads 1 from \<open>atomicCAS\<close>
  and returns without a store.
\<close>

lemma cuda_two_matches:
  "transitions (fst (cuda_run (\<lambda>s. length s)
       \<lparr>arg_start_index = 0, arg_passwords_per_thread = 13, arg_password_length = 1,
        arg_target_hash = 1, arg_total_combinations = 26\<rparr>
       [0, 1, 0, 1, 1, 0, 0, 1, 1, 1, 1, 1] cuda_initial)) = [1] \<and>
   writers (fst (cuda_run (\<lambda>s. length s)
       \<lparr>arg_start_index = 0, arg_passwords_per_thread = 13, arg_password_length = 1,
        arg_target_hash = 1, arg_total_combinations = 26\<rparr>
       [0, 1, 0, 1, 1, 0, 0, 1, 1, 1, 1, 1] cuda_initial)) = [1, 1, 1] \<and>
   found_at_index (fst (cuda_run (\<lambda>s. length s)
       \<lparr>arg_start_index = 0, arg_passwords_per_thread = 13, arg_password_length = 1,
        arg_target_hash = 1, arg_total_combinations = 26\<rparr>
       [0, 1, 0, 1, 1, 0, 0, 1, 1, 1, 1, 1] cuda_initial)) = 13 \<and>
   c_string (result_password (fst (cuda_run (\<lambda>s. length s)
       \<lparr>arg_start_index = 0, arg_passwords_per_thread = 13, arg_password_length = 1,
        arg_target_hash = 1, arg_total_combinations = 26\<rparr>
       [0, 1, 0, 1, 1, 0, 0, 1, 1, 1, 1, 1] cuda_initial))) = candidate 13 1 \<and>
   cu_pc (snd (cuda_run (\<lambda>s. length s)
       \<lparr>arg_start_index = 0, arg_passwords_per_thread = 13, arg_password_length = 1,
        arg_target_hash = 1, arg_total_combinations = 26\<rparr>
       [0, 1, 0, 1, 1, 0, 0, 1, 1, 1, 1, 1] cuda_initial) 0) = Returned"
  by code_simp


text \<open>
  For a password length from 0 to \<open>MAX_PASSWORD_LENGTH\<close> no thread of the kernel
  ever stores outside a buffer.
\<close>

lemma cuda_safe_initial: "cuda_safe cuda_initial"
  by (simp add: cuda_safe_def cuda_initial_def)

lemma cuda_thread_step_safe:
  assumes "0 \<le> arg_password_length args" "arg_password_length args \<le> MAX_PASSWORD_LENGTH"
    and "cuda_safe (sh, ths)" "cuda_thread_step md5 args t sh (ths t) = (sh', th')"
  shows "cuda_safe (sh', ths(t := th'))"
proof -
  have len: "length (cu_password (ths t)) = 11" "length (result_password sh) = 11"
    and pc: "cu_pc (ths t) \<noteq> Trapped"
    and j: "cu_pc (ths t) = WritePassword \<Longrightarrow> 0 \<le> cu_j (ths t)"
    using assms(3) by (simp_all add: cuda_safe_def MAX_PASSWORD_LENGTH_def)
  have rest: "length (result_password sh) = nat (MAX_PASSWORD_LENGTH + 1) \<and>
      (\<forall>u. length (cu_password (ths u)) = nat (MAX_PASSWORD_LENGTH + 1) \<and>
          cu_pc (ths u) \<noteq> Trapped \<and>
          (cu_pc (ths u) = WritePassword \<longrightarrow> 0 \<le> cu_j (ths u)))"
    using assms(3) by (simp add: cuda_safe_def)
  show ?thesis
  proof (cases "cu_pc (ths t)")
    case Start
    with assms(4) rest show ?thesis
      by (auto simp: cuda_safe_def cuda_thread_step_def Let_def split: if_splits)
  next
    case Loop
    have ntp: "\<exists>buf. number_to_password idx (cu_password (ths t)) (arg_password_length args) = Inr buf \<and>
        length buf = 11" for idx
      using number_to_password_candidate [of "arg_password_length args" "cu_password (ths t)" idx]
        assms(1,2) len(1) by (auto simp: MAX_PASSWORD_LENGTH_def)
    show ?thesis
    proof (cases "cu_i (ths t) < arg_passwords_per_thread args \<and> found_flag sh = 0 \<and>
                  \<not> arg_total_combinations args \<le> cu_my_start (ths t) + cu_i (ths t)")
      case False
      with Loop assms(4) rest show ?thesis
        by (auto simp: cuda_safe_def cuda_thread_step_def Let_def split: if_splits)
    next
      case True
      from ntp [of "cu_my_start (ths t) + cu_i (ths t)"] obtain buf where
        buf: "number_to_password (cu_my_start (ths t) + cu_i (ths t)) (cu_password (ths t))
                (arg_password_length args) = Inr buf" "length buf = 11" by blast
      with Loop True assms(4) rest show ?thesis
        by (auto simp: cuda_safe_def cuda_thread_step_def Let_def MAX_PASSWORD_LENGTH_def
            split: if_splits)
    qed
  next
    case Cas
    with assms(4) rest show ?thesis
      by (auto simp: cuda_safe_def cuda_thread_step_def split: if_splits)
  next
    case Check
    with assms(4) rest show ?thesis
      by (auto simp: cuda_safe_def cuda_thread_step_def split: if_splits)
  next
    case WriteIndex
    with assms(4) rest show ?thesis
      by (auto simp: cuda_safe_def cuda_thread_step_def split: if_splits)
  next
    case WritePassword
    then have j0: "0 \<le> cu_j (ths t)" by (rule j)
    show ?thesis
    proof (cases "cu_j (ths t) \<le> arg_password_length args")
      case False
      with WritePassword assms(4) rest show ?thesis
        by (auto simp: cuda_safe_def cuda_thread_step_def split: if_splits)
    next
      case True
      with assms(2) j0 have r: "0 \<le> cu_j (ths t)" "cu_j (ths t) < 11"
        by (simp_all add: MAX_PASSWORD_LENGTH_def)
      then have "store (result_password sh) (cu_j (ths t)) c =
          Inr ((result_password sh)[nat (cu_j (ths t)) := c])" for c
        using len(2) by (simp add: store_def)
      with WritePassword True r len assms(4) rest show ?thesis
        by (auto simp: cuda_safe_def cuda_thread_step_def MAX_PASSWORD_LENGTH_def split: if_splits)
    qed
  next
    case Returned
    with assms(4) rest show ?thesis
      by (auto simp: cuda_safe_def cuda_thread_step_def)
  next
    case Trapped
    with pc show ?thesis by simp
  qed
qed

lemma cuda_run_safe:
  assumes "0 \<le> arg_password_length args" "arg_password_length args \<le> MAX_PASSWORD_LENGTH"
  shows "cuda_safe s \<Longrightarrow> cuda_safe (cuda_run md5 args schedule s)"
proof (induction schedule arbitrary: s)
  case Nil
  then show ?case by simp
next
  case (Cons t schedule)
  obtain sh ths where s: "s = (sh, ths)" by (cases s)
  obtain sh' th' where st: "cuda_thread_step md5 args t sh (ths t) = (sh', th')"
    by (cases "cuda_thread_step md5 args t sh (ths t)")
  from Cons.prems s st have "cuda_safe (sh', ths(t := th'))"
    using cuda_thread_step_safe [OF assms] by blast
  from Cons.IH [OF this] show ?case by (simp add: s st)
qed

lemma cuda_never_traps:
  assumes "0 \<le> arg_password_length args" "arg_password_length args \<le> MAX_PASSWORD_LENGTH"
  shows "cu_pc (snd (cuda_run md5 args schedule cuda_initial) t) \<noteq> Trapped"
  using cuda_run_safe [OF assms cuda_safe_initial, of md5 schedule]
  by (auto simp: cuda_safe_def split: prod.splits)

section \<open>Announcing a match: two writers in the OpenMP loop\<close>

text \<open>
  Claim C5 fails in the OpenMP program: \<open>found = 1\<close>, \<open>found_at = i\<close> and
  \<open>strcpy(found_password, guess)\<close> are plain stores that every thread with a matching
  candidate makes. Two threads, length 1, and a fingerprint under which the candidates
  of indices 0 and 1 both match (here every candidate does): thread 0 takes iteration 0
  and thread 1 iteration 1, both read \<open>found\<close> as 0 and both match; then both store to
  \<open>found\<close>, thread 0 and then thread 1 store to \<open>found_at\<close>, and thread 1 and then
  thread 0 copy their candidate. Both have written the result, which ends as index 1
  with the candidate of index 0.
\<close>

theorem openmp_two_writers:
  "found_setters (fst (crack_password_parallel_run (\<lambda>s. length s) False ''a'' 1
       [0, 1, 0, 1, 0, 1, 0, 1, 0, 1, 1, 0])) = [0, 1] \<and>
   result_writers (fst (crack_password_parallel_run (\<lambda>s. length s) False ''a'' 1
       [0, 1, 0, 1, 0, 1, 0, 1, 0, 1, 1, 0])) = [0, 1, 1, 0] \<and>
   found_at (fst (crack_password_parallel_run (\<lambda>s. length s) False ''a'' 1
       [0, 1, 0, 1, 0, 1, 0, 1, 0, 1, 1, 0])) = 1 \<and>
   c_string (found_password (fst (crack_password_parallel_run (\<lambda>s. length s) False ''a'' 1
       [0, 1, 0, 1, 0, 1, 0, 1, 0, 1, 1, 0]))) = candidate 0 1"
  by code_simp

text \<open>
  With cancellation enabled the same twelve steps make the same stores: each thread
  reaches its \<open>cancel for\<close> only after it has written.
\<close>

lemma openmp_two_writers_cancellation:
  "result_writers (fst (crack_password_parallel_run (\<lambda>s. length s) True ''a'' 1
       [0, 1, 0, 1, 0, 1, 0, 1, 0, 1, 1, 0])) = [0, 1, 1, 0] \<and>
   found_at (fst (crack_password_parallel_run (\<lambda>s. length s) True ''a'' 1
       [0, 1, 0, 1, 0, 1, 0, 1, 0, 1, 1, 0])) = 1 \<and>
   c_string (found_password (fst (crack_password_parallel_run (\<lambda>s. length s) True ''a'' 1
       [0, 1, 0, 1, 0, 1, 0, 1, 0, 1, 1, 0]))) = candidate 0 1"
  by code_simp

end
